theory Spec2Isabelle
  imports Main "HOL-Library.AList"
begin

section \<open>Path strings (posixpath)\<close>

text \<open>
  Paths are Python strings, modelled as \<open>string\<close>. The functions below follow
  \<open>posixpath.join\<close>, \<open>posixpath.split\<close>, \<open>posixpath.dirname\<close>,
  \<open>posixpath.basename\<close> and \<open>genericpath._splitext\<close>.
\<close>

definition os_path_join :: "string \<Rightarrow> string \<Rightarrow> string" where
  "os_path_join a b =
     (if b \<noteq> [] \<and> hd b = CHR ''/'' then b
      else if a = [] \<or> last a = CHR ''/'' then a @ b
      else a @ ''/'' @ b)"

definition path_tail :: "string \<Rightarrow> string" where
  "path_tail p = rev (takeWhile (\<lambda>c. c \<noteq> CHR ''/'') (rev p))"

definition path_head_raw :: "string \<Rightarrow> string" where
  "path_head_raw p = rev (dropWhile (\<lambda>c. c \<noteq> CHR ''/'') (rev p))"

definition rstrip_sep :: "string \<Rightarrow> string" where
  "rstrip_sep s = rev (dropWhile (\<lambda>c. c = CHR ''/'') (rev s))"

definition os_path_split :: "string \<Rightarrow> string \<times> string" where
  "os_path_split p =
     (let head = path_head_raw p; tail = path_tail p
      in (if head \<noteq> [] \<and> \<not> list_all (\<lambda>c. c = CHR ''/'') head then rstrip_sep head else head,
          tail))"

definition os_path_dirname :: "string \<Rightarrow> string" where
  "os_path_dirname p = fst (os_path_split p)"

definition os_path_basename :: "string \<Rightarrow> string" where
  "os_path_basename p = path_tail p"

definition os_path_splitext :: "string \<Rightarrow> string \<times> string" where
  "os_path_splitext p =
     (let t = path_tail p;
          e = rev (takeWhile (\<lambda>c. c \<noteq> CHR ''.'') (rev t));
          b = rev (drop 1 (dropWhile (\<lambda>c. c \<noteq> CHR ''.'') (rev t)))
      in if CHR ''.'' \<in> set t \<and> \<not> list_all (\<lambda>c. c = CHR ''.'') b
         then (path_head_raw p @ b, CHR ''.'' # e)
         else (p, []))"

text \<open>\<open>str.lower\<close> on the ASCII letters; every other character is kept.\<close>

definition lower_char :: "char \<Rightarrow> char" where
  "lower_char c =
     (let n = (of_char c :: nat) in if 65 \<le> n \<and> n \<le> 90 then char_of (n + 32) else c)"

definition str_lower :: "string \<Rightarrow> string" where
  "str_lower s = map lower_char s"

text \<open>\<open>str(n)\<close> for a non-negative integer: its decimal digits.\<close>

definition digit_char :: "nat \<Rightarrow> char" where
  "digit_char d = char_of (48 + d)"

function str_nat :: "nat \<Rightarrow> string" where
  "str_nat n = (if n < 10 then [digit_char n] else str_nat (n div 10) @ [digit_char (n mod 10)])"
  by pat_completeness auto
termination
  by (relation "measure id") auto

declare str_nat.simps [simp del]

section \<open>Values read from and written to files\<close>

text \<open>
  What \<open>json.load\<close> returns and \<open>json.dump\<close> accepts. A Python dict is kept as an
  association list in insertion order.
\<close>

datatype json =
    JNull
  | JBool bool
  | JNum int
  | JStr string
  | JList "json list"
  | JObj "(string \<times> json) list"

text \<open>
  The content of a regular file: either the serialisation of a JSON value
  (\<open>json.load\<close> gives that value back) or text that is not valid JSON.
\<close>

datatype content = Text string | Json json

datatype node = File content | Dir

text \<open>
  The filesystem is a finite store from path strings to nodes. A path denotes the node
  bound to exactly that string; the empty parent of a relative path is the current
  directory, which always exists.
\<close>

type_synonym store = "(string \<times> node) list"

datatype error =
    FileNotFoundError
  | FileExistsError
  | NotADirectoryError
  | IsADirectoryError
  | ShutilError
  | JSONDecodeError
  | TypeError
  | AttributeError

definition lookup :: "store \<Rightarrow> string \<Rightarrow> node option" where
  "lookup fs p = map_of fs p"

definition os_path_exists :: "store \<Rightarrow> string \<Rightarrow> bool" where
  "os_path_exists fs p = (lookup fs p \<noteq> None)"

definition os_path_isdir :: "store \<Rightarrow> string \<Rightarrow> bool" where
  "os_path_isdir fs p = (lookup fs p = Some Dir)"

text \<open>
  The directory a new entry \<open>p\<close> is created in has to exist and be a directory.
\<close>

definition check_parent :: "store \<Rightarrow> string \<Rightarrow> error option" where
  "check_parent fs p =
     (if p = [] then Some FileNotFoundError
      else let d = os_path_dirname p in
        if d = [] then None
        else (case lookup fs d of
                None \<Rightarrow> Some FileNotFoundError
              | Some (File c) \<Rightarrow> Some NotADirectoryError
              | Some Dir \<Rightarrow> None))"

definition os_mkdir :: "store \<Rightarrow> string \<Rightarrow> error + store" where
  "os_mkdir fs name =
     (case check_parent fs name of
        Some e \<Rightarrow> Inl e
      | None \<Rightarrow> if os_path_exists fs name then Inl FileExistsError
                else Inr (AList.update name Dir fs))"

text \<open>
  \<open>os.makedirs(name, exist_ok=True)\<close>, after CPython's \<open>os.py\<close>: the missing
  ancestors first (a \<open>FileExistsError\<close> of the recursive call is passed over), then
  \<open>mkdir\<close>, whose error is dropped when \<open>name\<close> is a directory.
\<close>

definition makedirs_parts :: "string \<Rightarrow> string \<times> string" where
  "makedirs_parts name =
     (let (head, tail) = os_path_split name
      in if tail = [] then os_path_split head else (head, tail))"

lemma length_rstrip_sep: "length (rstrip_sep s) \<le> length s"
  by (simp add: rstrip_sep_def) (metis length_dropWhile_le length_rev)

lemma head_tail_append: "path_head_raw p @ path_tail p = p"
  by (simp add: path_head_raw_def path_tail_def flip: rev_append)

lemma length_split_fst: "length (fst (os_path_split p)) \<le> length (path_head_raw p)"
  by (simp add: os_path_split_def Let_def length_rstrip_sep)

lemma length_head_raw: "length (path_head_raw p) \<le> length p"
  by (simp add: path_head_raw_def) (metis length_dropWhile_le length_rev)

lemma split_shorter:
  assumes "snd (os_path_split p) \<noteq> []"
  shows "length (fst (os_path_split p)) < length p"
proof -
  have "path_tail p \<noteq> []" using assms by (simp add: os_path_split_def Let_def)
  then have "length (path_head_raw p) < length p"
    using head_tail_append [of p] by (metis length_append length_greater_0_conv less_add_same_cancel1)
  then show ?thesis using length_split_fst [of p] by simp
qed

lemma split_not_longer: "length (fst (os_path_split p)) \<le> length p"
  using length_split_fst [of p] length_head_raw [of p] by simp

lemma makedirs_parts_shorter:
  assumes "makedirs_parts name = (head, tail)" and "tail \<noteq> []"
  shows "length head < length name"
proof (cases "snd (os_path_split name) = []")
  case True
  then have eq: "os_path_split (fst (os_path_split name)) = (head, tail)"
    using assms(1) by (simp add: makedirs_parts_def split: prod.splits)
  then have "length head < length (fst (os_path_split name))"
    using split_shorter [of "fst (os_path_split name)"] assms(2) by simp
  then show ?thesis using split_not_longer [of name] by simp
next
  case False
  then have "os_path_split name = (head, tail)"
    using assms(1) by (simp add: makedirs_parts_def split: prod.splits)
  then show ?thesis using split_shorter [of name] assms(2) by simp
qed

function os_makedirs :: "store \<Rightarrow> string \<Rightarrow> error + store" where
  "os_makedirs fs name =
     (let (head, tail) = makedirs_parts name in
      if head \<noteq> [] \<and> tail \<noteq> [] \<and> \<not> os_path_exists fs head then
        (case os_makedirs fs head of
           Inl e \<Rightarrow>
             (if e = FileExistsError then
                (if tail = ''.'' then Inr fs
                 else (case os_mkdir fs name of
                         Inl e' \<Rightarrow> if os_path_isdir fs name then Inr fs else Inl e'
                       | Inr fs' \<Rightarrow> Inr fs'))
              else Inl e)
         | Inr fs1 \<Rightarrow>
             (if tail = ''.'' then Inr fs1
              else (case os_mkdir fs1 name of
                      Inl e' \<Rightarrow> if os_path_isdir fs1 name then Inr fs1 else Inl e'
                    | Inr fs' \<Rightarrow> Inr fs')))
      else
        (case os_mkdir fs name of
           Inl e' \<Rightarrow> if os_path_isdir fs name then Inr fs else Inl e'
         | Inr fs' \<Rightarrow> Inr fs'))"
  by pat_completeness auto
termination
  by (relation "measure (\<lambda>(fs, name). length name)") (auto dest: makedirs_parts_shorter [OF sym])

declare os_makedirs.simps [simp del]

definition ensure_dir :: "store \<Rightarrow> string \<Rightarrow> error + store" where
  "ensure_dir fs path = os_makedirs fs path"

text \<open>
  \<open>os.listdir\<close>: the names of the entries bound directly below \<open>path\<close>, in the
  order the store holds them.
\<close>

definition os_listdir :: "store \<Rightarrow> string \<Rightarrow> error + string list" where
  "os_listdir fs path =
     (case lookup fs path of
        None \<Rightarrow> Inl FileNotFoundError
      | Some (File c) \<Rightarrow> Inl NotADirectoryError
      | Some Dir \<Rightarrow>
          Inr (remdups (map os_path_basename
                 (filter (\<lambda>p. os_path_basename p \<noteq> [] \<and> os_path_join path (os_path_basename p) = p)
                    (map fst fs)))))"

definition os_remove :: "store \<Rightarrow> string \<Rightarrow> error + store" where
  "os_remove fs path =
     (case lookup fs path of
        None \<Rightarrow> Inl FileNotFoundError
      | Some Dir \<Rightarrow> Inl IsADirectoryError
      | Some (File c) \<Rightarrow> Inr (AList.delete path fs))"

text \<open>\<open>json.load(open(path, "r"))\<close>.\<close>

definition json_load :: "store \<Rightarrow> string \<Rightarrow> error + json" where
  "json_load fs path =
     (case lookup fs path of
        None \<Rightarrow> Inl FileNotFoundError
      | Some Dir \<Rightarrow> Inl IsADirectoryError
      | Some (File (Text s)) \<Rightarrow> Inl JSONDecodeError
      | Some (File (Json v)) \<Rightarrow> Inr v)"

text \<open>\<open>json.dump(v, open(path, "w"))\<close>: the file is created or truncated, then written.\<close>

definition json_dump :: "store \<Rightarrow> string \<Rightarrow> json \<Rightarrow> error + store" where
  "json_dump fs path v =
     (if os_path_isdir fs path then Inl IsADirectoryError
      else (case check_parent fs path of
              Some e \<Rightarrow> Inl e
            | None \<Rightarrow> Inr (AList.update path (File (Json v)) fs)))"

text \<open>
  \<open>shutil.move(src, dst)\<close> on one device. A destination that is a directory receives
  the source under its own base name, unless that name is taken. A regular file replaces
  a regular file at the destination (\<open>os.rename\<close>); a directory moves with everything
  below it.
\<close>

definition shutil_basename :: "string \<Rightarrow> string" where
  "shutil_basename path = os_path_basename (rstrip_sep path)"

definition is_below :: "string \<Rightarrow> string \<Rightarrow> bool" where
  "is_below d p = (take (length d + 1) p = d @ ''/'' \<and> length d + 1 \<le> length p)"

definition rename_tree :: "string \<Rightarrow> string \<Rightarrow> store \<Rightarrow> store" where
  "rename_tree src dst fs =
     map (\<lambda>(p, n). (if p = src then dst
                     else if is_below src p then dst @ drop (length src) p
                     else p, n)) fs"

definition os_rename :: "store \<Rightarrow> string \<Rightarrow> string \<Rightarrow> error + store" where
  "os_rename fs src dst =
     (case lookup fs src of
        None \<Rightarrow> Inl FileNotFoundError
      | Some (File c) \<Rightarrow>
          (case check_parent fs dst of
             Some e \<Rightarrow> Inl e
           | None \<Rightarrow>
               if os_path_isdir fs dst then Inl IsADirectoryError
               else Inr (AList.update dst (File c) (AList.delete src fs)))
      | Some Dir \<Rightarrow>
          (case check_parent fs dst of
             Some e \<Rightarrow> Inl e
           | None \<Rightarrow>
               if dst = src then Inr fs
               else if os_path_exists fs dst then Inl FileExistsError
               else if is_below src dst then Inl ShutilError
               else Inr (rename_tree src dst fs)))"

definition shutil_move :: "store \<Rightarrow> string \<Rightarrow> string \<Rightarrow> error + store" where
  "shutil_move fs src dst =
     (if os_path_isdir fs dst then
        (if src = dst then os_rename fs src dst
         else let real_dst = os_path_join dst (shutil_basename src) in
           if os_path_exists fs real_dst then Inl ShutilError
           else os_rename fs src real_dst)
      else os_rename fs src dst)"

section \<open>The program state\<close>

text \<open>
  The filesystem, the lines printed so far, and the clock \<open>datetime.now()\<close> reads.
\<close>

record world =
  disk :: store
  console :: "string list"
  clock :: nat

definition print :: "world \<Rightarrow> string \<Rightarrow> world" where
  "print w line = w\<lparr>console := console w @ [line]\<rparr>"

definition datetime_now_isoformat :: "world \<Rightarrow> string \<times> world" where
  "datetime_now_isoformat w = (str_nat (clock w), w\<lparr>clock := clock w + 1\<rparr>)"

definition error_text :: "error \<Rightarrow> string" where
  "error_text e =
     (case e of
        FileNotFoundError \<Rightarrow> ''No such file or directory''
      | FileExistsError \<Rightarrow> ''File exists''
      | NotADirectoryError \<Rightarrow> ''Not a directory''
      | IsADirectoryError \<Rightarrow> ''Is a directory''
      | ShutilError \<Rightarrow> ''Destination path already exists''
      | JSONDecodeError \<Rightarrow> ''Expecting value''
      | TypeError \<Rightarrow> ''expected str, bytes or os.PathLike object''
      | AttributeError \<Rightarrow> ''object has no attribute get'')"

section \<open>organize.py\<close>

definition FILE_TYPES :: "(string \<times> string list) list" where
  "FILE_TYPES =
     [(''Images'', [''.jpg'', ''.jpeg'', ''.png'', ''.gif'', ''.bmp'', ''.webp'']),
      (''Documents'', [''.pdf'', ''.docx'', ''.doc'', ''.txt'', ''.xlsx'', ''.csv'', ''.pptx'']),
      (''Music'', [''.mp3'', ''.wav'', ''.ogg'']),
      (''Videos'', [''.mp4'', ''.mov'', ''.avi'', ''.mkv'']),
      (''Archives'', [''.zip'', ''.tar'', ''.gz'', ''.rar'']),
      (''Scripts'', [''.py'', ''.js'', ''.sh''])]"

definition DEFAULT_OUTPUT :: string where
  "DEFAULT_OUTPUT = ''organized_output''"

definition LOG_FILENAME :: string where
  "LOG_FILENAME = ''organize_log.json''"

fun category_loop :: "(string \<times> string list) list \<Rightarrow> string \<Rightarrow> string option" where
  "category_loop [] ext = None"
| "category_loop ((category, extensions) # rest) ext =
     (if ext \<in> set extensions then Some category else category_loop rest ext)"

definition get_category_for_extension :: "string \<Rightarrow> string option" where
  "get_category_for_extension ext = category_loop FILE_TYPES ext"

text \<open>
  The loop of \<open>unique_dest_path\<close>, from its state \<open>(candidate, counter)\<close> to the
  state it ends in. It ends because the store is finite and the candidates are pairwise
  different.
\<close>

definition numbered :: "string \<Rightarrow> string \<Rightarrow> nat \<Rightarrow> string" where
  "numbered base ext counter = base @ ''('' @ str_nat counter @ '')'' @ ext"

lemma digit_char_inj: "a < 10 \<Longrightarrow> b < 10 \<Longrightarrow> digit_char a = digit_char b \<Longrightarrow> a = b"
  by (simp add: digit_char_def char_of_eq_iff take_bit_nat_eq_self)

lemma str_nat_nonempty: "str_nat n \<noteq> []"
  by (subst str_nat.simps) simp

lemma str_nat_inj: "str_nat n = str_nat m \<Longrightarrow> n = m"
proof (induction n arbitrary: m rule: str_nat.induct)
  case (1 n)
  show ?case
  proof (cases "n < 10")
    case True
    then have n: "str_nat n = [digit_char n]" by (subst str_nat.simps) simp
    show ?thesis
    proof (cases "m < 10")
      case True
      then have "str_nat m = [digit_char m]" by (subst str_nat.simps) simp
      with n "1.prems" \<open>n < 10\<close> True show ?thesis by (auto dest: digit_char_inj)
    next
      case False
      then have "str_nat m = str_nat (m div 10) @ [digit_char (m mod 10)]"
        by (subst str_nat.simps) simp
      with n "1.prems" str_nat_nonempty [of "m div 10"] show ?thesis
        by (cases "str_nat (m div 10)") auto
    qed
  next
    case False
    then have n: "str_nat n = str_nat (n div 10) @ [digit_char (n mod 10)]"
      by (subst str_nat.simps) simp
    show ?thesis
    proof (cases "m < 10")
      case True
      then have "str_nat m = [digit_char m]" by (subst str_nat.simps) simp
      with n "1.prems" str_nat_nonempty [of "n div 10"] show ?thesis
        by (cases "str_nat (n div 10)") auto
    next
      case m: False
      then have "str_nat m = str_nat (m div 10) @ [digit_char (m mod 10)]"
        by (subst str_nat.simps) simp
      with n "1.prems" have a: "str_nat (n div 10) = str_nat (m div 10)"
        and b: "digit_char (n mod 10) = digit_char (m mod 10)" by auto
      from "1.IH" [OF False a] have "n div 10 = m div 10" .
      moreover from b have "n mod 10 = m mod 10" by (auto dest!: digit_char_inj [rotated 2])
      ultimately show ?thesis by (metis div_mult_mod_eq)
    qed
  qed
qed

lemma numbered_inj: "numbered base ext j = numbered base ext k \<Longrightarrow> j = k"
  by (auto simp: numbered_def dest: str_nat_inj)

lemma numbered_hd: "(numbered base ext j \<noteq> [] \<and> hd (numbered base ext j) = c) =
    (numbered base ext k \<noteq> [] \<and> hd (numbered base ext k) = c)"
  by (cases base) (simp_all add: numbered_def)

lemma join_numbered_inj:
  assumes "os_path_join d (numbered base ext j) = os_path_join d (numbered base ext k)"
  shows "j = k"
proof -
  have "numbered base ext j = numbered base ext k"
    using assms numbered_hd [of base ext j "CHR ''/''" k]
    by (auto simp: os_path_join_def split: if_splits)
  then show ?thesis by (rule numbered_inj)
qed

definition taken :: "store \<Rightarrow> string \<Rightarrow> string \<Rightarrow> string \<Rightarrow> nat \<Rightarrow> nat set" where
  "taken fs dest_dir base ext counter =
     {k. counter \<le> k \<and> os_path_exists fs (os_path_join dest_dir (numbered base ext k))}"

lemma finite_taken: "finite (taken fs dest_dir base ext counter)"
proof -
  let ?f = "\<lambda>k. os_path_join dest_dir (numbered base ext k)"
  have "inj ?f" by (rule injI) (rule join_numbered_inj)
  then have "finite (?f -` (fst ` set fs))" by (intro finite_vimageI) simp_all
  moreover have "taken fs dest_dir base ext counter \<subseteq> ?f -` (fst ` set fs)"
    by (auto simp: taken_def os_path_exists_def lookup_def map_of_eq_None_iff)
  ultimately show ?thesis by (rule rev_finite_subset)
qed

lemma taken_Suc:
  "taken fs dest_dir base ext counter =
     (if os_path_exists fs (os_path_join dest_dir (numbered base ext counter))
      then insert counter (taken fs dest_dir base ext (Suc counter))
      else taken fs dest_dir base ext (Suc counter))"
  by (auto simp: taken_def Suc_le_eq le_less)

lemma card_taken_Suc:
  "card (taken fs dest_dir base ext counter) =
     (if os_path_exists fs (os_path_join dest_dir (numbered base ext counter)) then 1 else 0)
       + card (taken fs dest_dir base ext (Suc counter))"
proof -
  have "counter \<notin> taken fs dest_dir base ext (Suc counter)" by (simp add: taken_def)
  then show ?thesis
    by (subst taken_Suc) (simp add: finite_taken)
qed

function unique_loop ::
  "store \<Rightarrow> string \<Rightarrow> string \<Rightarrow> string \<Rightarrow> string \<Rightarrow> nat \<Rightarrow> string \<times> nat"
where
  "unique_loop fs dest_dir base ext candidate counter =
     (if os_path_exists fs (os_path_join dest_dir candidate)
      then unique_loop fs dest_dir base ext (numbered base ext counter) (counter + 1)
      else (candidate, counter))"
  by pat_completeness auto
termination
proof (relation "measure (\<lambda>(fs, dest_dir, base, ext, candidate, counter).
        card (taken fs dest_dir base ext counter)
          + (if os_path_exists fs (os_path_join dest_dir candidate) then 1 else 0))")
  show "wf (measure (\<lambda>(fs, dest_dir, base, ext, candidate, counter).
        card (taken fs dest_dir base ext counter)
          + (if os_path_exists fs (os_path_join dest_dir candidate) then 1 else 0)))"
    by simp
next
  fix fs :: store and dest_dir base ext candidate :: string and counter :: nat
  assume "os_path_exists fs (os_path_join dest_dir candidate)"
  then show "((fs, dest_dir, base, ext, numbered base ext counter, counter + 1),
              (fs, dest_dir, base, ext, candidate, counter))
      \<in> measure (\<lambda>(fs, dest_dir, base, ext, candidate, counter).
        card (taken fs dest_dir base ext counter)
          + (if os_path_exists fs (os_path_join dest_dir candidate) then 1 else 0))"
    using card_taken_Suc [of fs dest_dir base ext counter] by simp
qed

declare unique_loop.simps [simp del]

definition unique_dest_path :: "store \<Rightarrow> string \<Rightarrow> string \<Rightarrow> string" where
  "unique_dest_path fs dest_dir filename =
     (let (base, ext) = os_path_splitext filename;
          (candidate, counter) = unique_loop fs dest_dir base ext filename 1
      in os_path_join dest_dir candidate)"

text \<open>
  \<open>write_log\<close>: every exception of the read is swallowed (\<open>except Exception: pass\<close>);
  those of \<open>ensure_dir\<close> and of the write propagate.
\<close>

definition write_log :: "store \<Rightarrow> string \<Rightarrow> json list \<Rightarrow> error + store" where
  "write_log fs output_folder log_entries =
     (case ensure_dir fs output_folder of
        Inl e \<Rightarrow> Inl e
      | Inr fs1 \<Rightarrow>
          let log_path = os_path_join output_folder LOG_FILENAME;
              log_entries' =
                (if os_path_exists fs1 log_path then
                   (case json_load fs1 log_path of
                      Inr (JList existing) \<Rightarrow> existing @ log_entries
                    | _ \<Rightarrow> log_entries)
                 else log_entries)
          in json_dump fs1 log_path (JList log_entries'))"

definition load_log :: "store \<Rightarrow> string \<Rightarrow> error + json list" where
  "load_log fs output_folder =
     (let log_path = os_path_join output_folder LOG_FILENAME in
      if \<not> os_path_exists fs log_path then Inr []
      else (case json_load fs log_path of
              Inr (JList data) \<Rightarrow> Inr data
            | Inr other \<Rightarrow> Inr []
            | Inl e \<Rightarrow> Inr []))"

text \<open>Python's truth value of what \<open>entry.get\<close> returns (\<open>None\<close> for a missing key).\<close>

fun truthy :: "json \<Rightarrow> bool" where
  "truthy JNull = False"
| "truthy (JBool b) = b"
| "truthy (JNum n) = (n \<noteq> 0)"
| "truthy (JStr s) = (s \<noteq> [])"
| "truthy (JList xs) = (xs \<noteq> [])"
| "truthy (JObj kvs) = (kvs \<noteq> [])"

definition dict_get :: "(string \<times> json) list \<Rightarrow> string \<Rightarrow> json" where
  "dict_get kvs key = (case map_of kvs key of None \<Rightarrow> JNull | Some v \<Rightarrow> v)"

text \<open>
  One pass of the loop of \<open>undo_moves\<close> over \<open>entry\<close>, on the state
  \<open>(world, failed)\<close>. An entry that is no dict has no \<open>get\<close>; a path that is no string
  is refused by \<open>os.path\<close> (so is, here, a number or \<open>true\<close>, which
  \<open>os.path.exists\<close> would take for a file descriptor: descriptors are not part of the
  store); \<open>ensure_dir\<close> stands outside the \<open>try\<close>. The pairs of a \<open>JObj\<close> are
  those of the dict that \<open>json.load\<close> built, one per key.
\<close>

definition undo_entry :: "world \<times> json list \<Rightarrow> json \<Rightarrow> error + world \<times> json list" where
  "undo_entry st entry =
     (let (w, failed) = st in
      case entry of
        JObj kvs \<Rightarrow>
          (let src = dict_get kvs ''src''; dest = dict_get kvs ''dest'' in
           if \<not> truthy dest \<or> \<not> truthy src then Inr (w, failed)
           else (case dest of
                   JStr dest_path \<Rightarrow>
                     if os_path_exists (disk w) dest_path then
                       (case src of
                          JStr src_path \<Rightarrow>
                            (case ensure_dir (disk w) (os_path_dirname src_path) of
                               Inl e \<Rightarrow> Inl e
                             | Inr fs1 \<Rightarrow>
                                 (case shutil_move fs1 dest_path src_path of
                                    Inr fs2 \<Rightarrow>
                                      Inr (print (w\<lparr>disk := fs2\<rparr>)
                                             (''Restored: '' @ dest_path @ '' -> '' @ src_path),
                                           failed)
                                  | Inl e \<Rightarrow>
                                      Inr (print (w\<lparr>disk := fs1\<rparr>)
                                             (''Failed to restore '' @ dest_path @ '' -> ''
                                                @ src_path @ '': '' @ error_text e),
                                           failed @ [entry])))
                        | _ \<Rightarrow> Inl TypeError)
                     else Inr (print w (''Skipped (missing destination): '' @ dest_path), failed)
                 | _ \<Rightarrow> Inl TypeError))
      | _ \<Rightarrow> Inl AttributeError)"

fun undo_loop :: "world \<times> json list \<Rightarrow> json list \<Rightarrow> error + world \<times> json list" where
  "undo_loop st [] = Inr st"
| "undo_loop st (entry # rest) =
     (case undo_entry st entry of
        Inl e \<Rightarrow> Inl e
      | Inr st' \<Rightarrow> undo_loop st' rest)"

definition undo_moves :: "world \<Rightarrow> string \<Rightarrow> error + world" where
  "undo_moves w output_folder =
     (case load_log (disk w) output_folder of
        Inl e \<Rightarrow> Inl e
      | Inr log \<Rightarrow>
          if log = [] then Inr (print w ''No log entries found to undo.'')
          else (case undo_loop (w, []) (rev log) of
                  Inl e \<Rightarrow> Inl e
                | Inr (w1, failed) \<Rightarrow>
                    if failed = [] then
                      (case os_remove (disk w1) (os_path_join output_folder LOG_FILENAME) of
                         Inr fs2 \<Rightarrow> Inr (print (w1\<lparr>disk := fs2\<rparr>) ''Undo complete. Log removed.'')
                       | Inl e \<Rightarrow>
                           Inr (print w1 ''Undo complete, but failed to remove log file.''))
                    else
                      (case write_log (disk w1) output_folder (rev failed) of
                         Inl e \<Rightarrow> Inl e
                       | Inr fs2 \<Rightarrow>
                           Inr (print (w1\<lparr>disk := fs2\<rparr>)
                                  ''Undo finished with some failures. Remaining failed entries saved to log.''))))"

text \<open>
  The state of the loop of \<open>organize\<close>:
  \<open>(world, moved_entries, counts, skipped, total)\<close>. \<open>counts\<close> is a dict in insertion
  order. One pass over \<open>filename\<close>; \<open>ensure_dir\<close> stands outside the \<open>try\<close>, and
  before the test of \<open>dry_run\<close>.
\<close>

type_synonym organize_state = "world \<times> json list \<times> (string \<times> nat) list \<times> nat \<times> nat"

definition category_of :: "string \<Rightarrow> string" where
  "category_of filename =
     (let ext = str_lower (snd (os_path_splitext filename)) in
      case get_category_for_extension ext of
        None \<Rightarrow> ''Others''
      | Some c \<Rightarrow> if c = [] then ''Others'' else c)"

definition organize_file ::
  "string \<Rightarrow> string \<Rightarrow> bool \<Rightarrow> organize_state \<Rightarrow> string \<Rightarrow> error + organize_state"
where
  "organize_file source_folder output_folder dry_run st filename =
     (let (w, moved_entries, counts, skipped, total_count) = st;
          file_path = os_path_join source_folder filename
      in
      if os_path_isdir (disk w) file_path then Inr st
      else
        let category = category_of filename;
            dest_dir = os_path_join output_folder category
        in
        case ensure_dir (disk w) dest_dir of
          Inl e \<Rightarrow> Inl e
        | Inr fs1 \<Rightarrow>
            let dest_path = unique_dest_path fs1 dest_dir filename in
            if dry_run then
              Inr (print (w\<lparr>disk := fs1\<rparr>)
                     (''[DRY RUN] Would move: '' @ file_path @ '' -> '' @ dest_path),
                   moved_entries, counts, skipped, total_count + 1)
            else
              (case shutil_move fs1 file_path dest_path of
                 Inr fs2 \<Rightarrow>
                   let w2 = print (w\<lparr>disk := fs2\<rparr>)
                              (''Moved: '' @ filename @ '' -> '' @ category @ ''/'');
                       (timestamp, w3) = datetime_now_isoformat w2
                   in Inr (w3,
                           moved_entries @
                             [JObj [(''timestamp'', JStr timestamp),
                                    (''src'', JStr file_path),
                                    (''dest'', JStr dest_path)]],
                           AList.update category
                             ((case map_of counts category of None \<Rightarrow> 0 | Some n \<Rightarrow> n) + 1)
                             counts,
                           skipped, total_count + 1)
               | Inl e \<Rightarrow>
                   Inr (print (w\<lparr>disk := fs1\<rparr>)
                          (''Failed to move '' @ filename @ '': '' @ error_text e),
                        moved_entries, counts, skipped + 1, total_count + 1)))"

fun organize_loop ::
  "string \<Rightarrow> string \<Rightarrow> bool \<Rightarrow> organize_state \<Rightarrow> string list \<Rightarrow> error + organize_state"
where
  "organize_loop source_folder output_folder dry_run st [] = Inr st"
| "organize_loop source_folder output_folder dry_run st (filename # rest) =
     (case organize_file source_folder output_folder dry_run st filename of
        Inl e \<Rightarrow> Inl e
      | Inr st' \<Rightarrow> organize_loop source_folder output_folder dry_run st' rest)"

definition print_summary :: "world \<Rightarrow> (string \<times> nat) list \<Rightarrow> nat \<Rightarrow> nat \<Rightarrow> world" where
  "print_summary w counts total_count skipped =
     (let w1 = print w (CHR 0x0A # ''--- summary ---'');
          w2 = foldl (\<lambda>v (cat, cnt). print v (cat @ '': '' @ str_nat cnt)) w1 counts;
          w3 = print w2 (''Total files scanned: '' @ str_nat total_count)
      in print w3 (''Skipped (failed or directories): '' @ str_nat skipped))"

definition organize :: "world \<Rightarrow> string \<Rightarrow> string \<Rightarrow> bool \<Rightarrow> error + world \<times> json list" where
  "organize w source_folder output_folder dry_run =
     (if \<not> os_path_exists (disk w) source_folder then
        Inr (print w (''Source folder does not exist: '' @ source_folder), [])
      else
        (case ensure_dir (disk w) output_folder of
           Inl e \<Rightarrow> Inl e
         | Inr fs1 \<Rightarrow>
             (case os_listdir fs1 source_folder of
                Inl e \<Rightarrow> Inl e
              | Inr names \<Rightarrow>
                  (case organize_loop source_folder output_folder dry_run
                          (w\<lparr>disk := fs1\<rparr>, [], [], 0, 0) names of
                     Inl e \<Rightarrow> Inl e
                   | Inr (w2, moved_entries, counts, skipped, total_count) \<Rightarrow>
                       let w3 = print_summary w2 counts total_count skipped in
                       if moved_entries \<noteq> [] then
                         (case write_log (disk w3) output_folder moved_entries of
                            Inl e \<Rightarrow> Inl e
                          | Inr fs4 \<Rightarrow>
                              Inr (print
                                     (print (w3\<lparr>disk := fs4\<rparr>)
                                        (CHR 0x0A # ''Log saved to: ''
                                           @ os_path_join output_folder LOG_FILENAME))
                                     ''You can undo this run with: python organize.py --undo'',
                                   moved_entries))
                       else
                         Inr (print w3
                                (CHR 0x0A # ''No files were moved (dry run or nothing to move).''),
                              moved_entries)))))"

section \<open>Notions used in the statements\<close>

text \<open>
  \<open>adds_dirs n fs fs'\<close>: the store \<open>fs'\<close> is \<open>fs\<close> with directories bound at some
  paths of length at most \<open>n\<close> that were free in \<open>fs\<close>; nothing else differs.
\<close>

definition adds_dirs :: "nat \<Rightarrow> store \<Rightarrow> store \<Rightarrow> bool" where
  "adds_dirs n fs fs' =
     (\<forall>x. lookup fs' x = lookup fs x
          \<or> (lookup fs x = None \<and> lookup fs' x = Some Dir \<and> length x \<le> n))"

text \<open>
  The entries a store holds in the log of \<open>output_folder\<close>: those of the list in the log
  file, and none when there is no log file or it holds no list.
\<close>

definition stored_entries :: "store \<Rightarrow> string \<Rightarrow> json list" where
  "stored_entries fs output_folder =
     (case lookup fs (os_path_join output_folder LOG_FILENAME) of
        Some (File (Json (JList existing))) \<Rightarrow> existing
      | _ \<Rightarrow> [])"

definition move_record :: "string \<Rightarrow> string \<Rightarrow> string \<Rightarrow> json" where
  "move_record timestamp src dest =
     JObj [(''timestamp'', JStr timestamp), (''src'', JStr src), (''dest'', JStr dest)]"

text \<open>
  The existing paths that \<open>unique_dest_path\<close> can run into: the plain destination and
  the numbered ones. \<open>candidates_tested\<close> is the value of \<open>counter\<close> when the loop ends,
  one more than the number of passes through its body: the number of candidates whose
  existence was tested.
\<close>

definition colliding :: "store \<Rightarrow> string \<Rightarrow> string \<Rightarrow> string set" where
  "colliding fs dest_dir filename =
     {p. os_path_exists fs p \<and>
         (p = os_path_join dest_dir filename
          \<or> (\<exists>k\<ge>1. p = os_path_join dest_dir
                 (numbered (fst (os_path_splitext filename)) (snd (os_path_splitext filename)) k)))}"

definition candidates_tested :: "store \<Rightarrow> string \<Rightarrow> string \<Rightarrow> nat" where
  "candidates_tested fs dest_dir filename =
     snd (unique_loop fs dest_dir (fst (os_path_splitext filename))
            (snd (os_path_splitext filename)) filename 1)"

text \<open>
  Path strings: \<open>os.path.join a b\<close> is \<open>pre a @ b\<close> for a \<open>b\<close> that is not absolute;
  a good name is a single non-empty path component, as \<open>os.listdir\<close> returns them.
\<close>

definition pre :: "string \<Rightarrow> string" where
  "pre a = (if a = [] \<or> last a = CHR ''/'' then a else a @ ''/'')"

definition relative :: "string \<Rightarrow> bool" where
  "relative b = (b = [] \<or> hd b \<noteq> CHR ''/'')"

definition good_name :: "string \<Rightarrow> bool" where
  "good_name n = (n \<noteq> [] \<and> CHR ''/'' \<notin> set n)"

text \<open>The names of the folders \<open>organize\<close> sorts into.\<close>

definition categories :: "string list" where
  "categories = map fst FILE_TYPES @ [''Others'']"

text \<open>
  Directories created below the output folder have a path of at most this length.
\<close>

definition dir_bound :: "string \<Rightarrow> nat" where
  "dir_bound out = length (pre out) + 9"

text \<open>The regular files of a store, with their content.\<close>

definition files_of :: "store \<Rightarrow> string \<Rightarrow> content option" where
  "files_of fs p = (case lookup fs p of Some (File c) \<Rightarrow> Some c | _ \<Rightarrow> None)"

text \<open>The path a record gives as \<open>src\<close>; empty when it gives no string.\<close>

definition record_src :: "json \<Rightarrow> string" where
  "record_src e =
     (case e of
        JObj kvs \<Rightarrow> (case dict_get kvs ''src'' of JStr s \<Rightarrow> s | _ \<Rightarrow> [])
      | _ \<Rightarrow> [])"

text \<open>
  A move \<open>(timestamp, src, dest, content)\<close> of one regular file, and the record
  \<open>organize\<close> logs for it. \<open>run n fs ms fs'\<close>: the store \<open>fs'\<close> comes from \<open>fs\<close> by the
  moves \<open>ms\<close>, in order, each of a regular file to a free path, with directories
  (of a path of length at most \<open>n\<close>) created at free paths in between.
\<close>

type_synonym move = "string \<times> string \<times> string \<times> content"

definition record_of :: "move \<Rightarrow> json" where
  "record_of m = (case m of (ts, p, d, c) \<Rightarrow> move_record ts p d)"

fun run :: "nat \<Rightarrow> store \<Rightarrow> move list \<Rightarrow> store \<Rightarrow> bool" where
  "run N fs [] T = adds_dirs N fs T"
| "run N fs (m # ms) T =
     (case m of (ts, p, d, c) \<Rightarrow>
        \<exists>fs1 fs2. adds_dirs N fs fs1 \<and> lookup fs1 p = Some (File c) \<and> lookup fs1 d = None
          \<and> lookup fs2 = (lookup fs1)(p := None, d \<mapsto> File c) \<and> run N fs2 ms T)"

text \<open>
  What is known of a move of \<open>organize\<close>: from a listed name in the source folder to a
  single component in the folder of its category; where its file is afterwards, and
  where it was before; and what \<open>undo_moves\<close> needs of it.
\<close>

definition move_ok :: "string \<Rightarrow> string \<Rightarrow> string set \<Rightarrow> move \<Rightarrow> bool" where
  "move_ok src out names m =
     (case m of (ts, p, d, c) \<Rightarrow>
        \<exists>n cand. n \<in> names \<and> good_name n \<and> good_name cand
          \<and> p = os_path_join src n
          \<and> d = os_path_join (os_path_join out (category_of n)) cand)"

definition placed :: "store \<Rightarrow> move \<Rightarrow> bool" where
  "placed fs m = (case m of (ts, p, d, c) \<Rightarrow> lookup fs d = Some (File c))"

definition sourced :: "store \<Rightarrow> move \<Rightarrow> bool" where
  "sourced fs m = (case m of (ts, p, d, c) \<Rightarrow> lookup fs p = Some (File c))"

definition undo_ok :: "string set \<Rightarrow> nat \<Rightarrow> string \<Rightarrow> move \<Rightarrow> bool" where
  "undo_ok X L lp m =
     (case m of (ts, p, d, c) \<Rightarrow>
        p \<in> X \<and> p \<noteq> [] \<and> d \<noteq> [] \<and> length (os_path_dirname p) \<le> L \<and> p \<noteq> lp \<and> d \<noteq> lp)"

text \<open>Stores and worlds the statements are tried on.\<close>

definition record_a :: json where
  "record_a = move_record ''0'' ''in/a.txt'' ''out/Documents/a.txt''"

definition record_b :: json where
  "record_b = move_record ''1'' ''in/b.txt'' ''out/Documents/b.txt''"

definition store_with_log :: store where
  "store_with_log =
     [(''out'', Dir), (''out/organize_log.json'', File (Json (JList [record_a])))]"

definition store_with_broken_log :: store where
  "store_with_broken_log =
     [(''out'', Dir), (''out/organize_log.json'', File (Text ''[{''))]"

definition store_taken :: store where
  "store_taken =
     [(''d'', Dir), (''d/a.txt'', File (Text ''x'')), (''d/a(1).txt'', File (Text ''y''))]"

definition world_in :: world where
  "world_in =
     \<lparr>disk = [(''in'', Dir),
              (''in/a.txt'', File (Text ''A'')),
              (''in/a.jpg'', File (Text ''B'')),
              (''in/data.xyz'', File (Text ''C'')),
              (''in/sub'', Dir)],
      console = [], clock = 0\<rparr>"

text \<open>
  A world after an organize run that moved \<open>in/a.txt\<close> and \<open>in/b.txt\<close>, in which
  \<open>in/b.txt\<close> has since become a directory that holds a \<open>b.txt\<close> of its own: moving
  \<open>out/Documents/b.txt\<close> back is refused by \<open>shutil.move\<close>. \<open>world_partial_undone\<close> is
  what \<open>undo_moves\<close> leaves of it.
\<close>

definition world_partial :: world where
  "world_partial =
     \<lparr>disk = [(''in'', Dir),
              (''in/b.txt'', Dir),
              (''in/b.txt/b.txt'', File (Text ''other'')),
              (''out'', Dir),
              (''out/Documents'', Dir),
              (''out/Documents/a.txt'', File (Text ''A'')),
              (''out/Documents/b.txt'', File (Text ''B'')),
              (''out/organize_log.json'', File (Json (JList [record_a, record_b])))],
      console = [], clock = 0\<rparr>"

definition world_partial_undone :: world where
  "world_partial_undone =
     \<lparr>disk = [(''in'', Dir),
              (''in/b.txt'', Dir),
              (''in/b.txt/b.txt'', File (Text ''other'')),
              (''out'', Dir),
              (''out/Documents'', Dir),
              (''out/Documents/b.txt'', File (Text ''B'')),
              (''out/organize_log.json'', File (Json (JList [record_a, record_b, record_b]))),
              (''in/a.txt'', File (Text ''A''))],
      console =
        [''Failed to restore out/Documents/b.txt -> in/b.txt: Destination path already exists'',
         ''Restored: out/Documents/a.txt -> in/a.txt'',
         ''Undo finished with some failures. Remaining failed entries saved to log.''],
      clock = 0\<rparr>"

text \<open>The same world with a first record that has no \<open>src\<close>.\<close>

definition record_no_src :: json where
  "record_no_src = JObj [(''timestamp'', JStr ''0''), (''dest'', JStr ''out/Documents/a.txt'')]"

definition world_skip :: world where
  "world_skip =
     \<lparr>disk = [(''in'', Dir),
              (''in/b.txt'', Dir),
              (''in/b.txt/b.txt'', File (Text ''other'')),
              (''out'', Dir),
              (''out/Documents'', Dir),
              (''out/Documents/a.txt'', File (Text ''A'')),
              (''out/Documents/b.txt'', File (Text ''B'')),
              (''out/organize_log.json'', File (Json (JList [record_no_src, record_b])))],
      console = [], clock = 0\<rparr>"

definition world_skip_undone :: world where
  "world_skip_undone =
     \<lparr>disk = [(''in'', Dir),
              (''in/b.txt'', Dir),
              (''in/b.txt/b.txt'', File (Text ''other'')),
              (''out'', Dir),
              (''out/Documents'', Dir),
              (''out/Documents/a.txt'', File (Text ''A'')),
              (''out/Documents/b.txt'', File (Text ''B'')),
              (''out/organize_log.json'',
               File (Json (JList [record_no_src, record_b, record_b])))],
      console =
        [''Failed to restore out/Documents/b.txt -> in/b.txt: Destination path already exists'',
         ''Undo finished with some failures. Remaining failed entries saved to log.''],
      clock = 0\<rparr>"

text \<open>What a dry run of \<open>organize\<close> from \<open>in\<close> to \<open>out\<close> leaves of \<open>world_in\<close>.\<close>

definition world_in_dry_run :: world where
  "world_in_dry_run =
     \<lparr>disk = [(''in'', Dir),
              (''in/a.txt'', File (Text ''A'')),
              (''in/a.jpg'', File (Text ''B'')),
              (''in/data.xyz'', File (Text ''C'')),
              (''in/sub'', Dir),
              (''out'', Dir),
              (''out/Documents'', Dir),
              (''out/Images'', Dir),
              (''out/Others'', Dir)],
      console =
        [''[DRY RUN] Would move: in/a.txt -> out/Documents/a.txt'',
         ''[DRY RUN] Would move: in/a.jpg -> out/Images/a.jpg'',
         ''[DRY RUN] Would move: in/data.xyz -> out/Others/data.xyz'',
         CHR 0x0A # ''--- summary ---'',
         ''Total files scanned: 3'',
         ''Skipped (failed or directories): 0'',
         CHR 0x0A # ''No files were moved (dry run or nothing to move).''],
      clock = 0\<rparr>"











section \<open>The store under the operations\<close>

lemma lookup_update: "lookup (AList.update k v fs) = (lookup fs)(k \<mapsto> v)"
  by (rule ext) (simp add: lookup_def update_conv')

lemma lookup_delete: "lookup (AList.delete k fs) = (lookup fs)(k := None)"
  by (rule ext) (simp add: lookup_def delete_conv')

lemma adds_dirs_refl: "adds_dirs n fs fs"
  by (simp add: adds_dirs_def)

lemma adds_dirs_mono: "adds_dirs n fs fs' \<Longrightarrow> n \<le> m \<Longrightarrow> adds_dirs m fs fs'"
  unfolding adds_dirs_def by (metis le_trans)

lemma adds_dirs_trans: "adds_dirs n fs fs1 \<Longrightarrow> adds_dirs n fs1 fs2 \<Longrightarrow> adds_dirs n fs fs2"
  unfolding adds_dirs_def by metis

lemma mkdir_adds:
  assumes "os_mkdir fs name = Inr fs'"
  shows "adds_dirs (length name) fs fs'" and "lookup fs' name = Some Dir"
  using assms
  by (auto simp: os_mkdir_def adds_dirs_def lookup_update os_path_exists_def
      split: option.splits if_splits)

lemma mkdir_step:
  assumes "(case os_mkdir fs name of
              Inl e' \<Rightarrow> if os_path_isdir fs name then Inr fs else Inl e'
            | Inr fs' \<Rightarrow> Inr fs') = Inr fs2"
  shows "adds_dirs (length name) fs fs2 \<and> os_path_isdir fs2 name"
  using assms mkdir_adds [of fs name]
  by (auto simp: adds_dirs_refl os_path_isdir_def split: sum.splits if_splits)

lemma makedirs_adds: "os_makedirs fs name = Inr fs' \<Longrightarrow> adds_dirs (length name) fs fs'"
proof (induction fs name arbitrary: fs' rule: os_makedirs.induct)
  case (1 fs name)
  obtain head tail where parts: "makedirs_parts name = (head, tail)" by force
  show ?case
  proof (cases "head \<noteq> [] \<and> tail \<noteq> [] \<and> \<not> os_path_exists fs head")
    case True
    then have len: "length head < length name"
      using makedirs_parts_shorter [OF parts] by simp
    show ?thesis
    proof (cases "os_makedirs fs head")
      case (Inl e)
      with "1.prems" parts True show ?thesis
        by (subst (asm) os_makedirs.simps)
           (auto simp: adds_dirs_refl dest: mkdir_step split: if_splits)
    next
      case (Inr fs1)
      have a: "adds_dirs (length name) fs fs1"
        using "1.IH" [OF parts [symmetric] refl _ Inr] True len
        by (auto intro: adds_dirs_mono)
      from "1.prems" parts True Inr
      have "fs' = fs1 \<or> adds_dirs (length name) fs1 fs'"
        by (subst (asm) os_makedirs.simps) (auto dest: mkdir_step split: if_splits)
      with a show ?thesis by (auto intro: adds_dirs_trans)
    qed
  next
    case False
    with "1.prems" parts show ?thesis
      by (subst (asm) os_makedirs.simps) (auto dest: mkdir_step split: if_splits)
  qed
qed


lemma length_join_log: "length output_folder < length (os_path_join output_folder LOG_FILENAME)"
  by (simp add: os_path_join_def LOG_FILENAME_def)


lemma write_log_result:
  assumes "write_log fs output_folder new_entries = Inr fs'"
  shows "\<exists>fs1. ensure_dir fs output_folder = Inr fs1
           \<and> fs' = AList.update (os_path_join output_folder LOG_FILENAME)
                   (File (Json (JList (stored_entries fs output_folder @ new_entries)))) fs1"
proof -
  let ?lp = "os_path_join output_folder LOG_FILENAME"
  from assms obtain fs1 where e: "ensure_dir fs output_folder = Inr fs1"
    by (auto simp: write_log_def split: sum.splits)
  then have ad: "adds_dirs (length output_folder) fs fs1"
    by (simp add: ensure_dir_def makedirs_adds)
  have lk: "lookup fs1 ?lp = lookup fs ?lp \<or> lookup fs1 ?lp = Some Dir"
    using ad length_join_log [of output_folder] unfolding adds_dirs_def by metis
  have nd: "lookup fs1 ?lp \<noteq> Some Dir"
    using assms e
    by (auto simp: write_log_def Let_def json_dump_def os_path_isdir_def split: if_splits)
  with lk have same: "lookup fs1 ?lp = lookup fs ?lp" by simp
  have "(if os_path_exists fs1 ?lp then
           (case json_load fs1 ?lp of
              Inr (JList existing) \<Rightarrow> existing @ new_entries
            | _ \<Rightarrow> new_entries)
         else new_entries) = stored_entries fs output_folder @ new_entries"
    using same
    by (auto simp: stored_entries_def os_path_exists_def json_load_def
        split: option.splits node.splits content.splits json.splits)
  with assms e show ?thesis
    by (auto simp: write_log_def Let_def json_dump_def split: if_splits option.splits)
qed

section \<open>The path allocator\<close>

lemma splitext_append: "fst (os_path_splitext p) @ snd (os_path_splitext p) = p"
proof (cases "CHR ''.'' \<in> set (path_tail p) \<and>
    \<not> list_all (\<lambda>c. c = CHR ''.'')
        (rev (drop 1 (dropWhile (\<lambda>c. c \<noteq> CHR ''.'') (rev (path_tail p)))))")
  case False
  then show ?thesis by (auto simp: os_path_splitext_def Let_def)
next
  case True
  let ?t = "path_tail p"
  let ?dw = "dropWhile (\<lambda>c. c \<noteq> CHR ''.'') (rev ?t)"
  let ?tw = "takeWhile (\<lambda>c. c \<noteq> CHR ''.'') (rev ?t)"
  from True have "?dw \<noteq> []" by (auto simp: dropWhile_eq_Nil_conv)
  moreover have "hd ?dw = CHR ''.''" using \<open>?dw \<noteq> []\<close> hd_dropWhile [of "\<lambda>c. c \<noteq> CHR ''.''" "rev ?t"] by auto
  ultimately have dw: "?dw = CHR ''.'' # drop 1 ?dw" by (cases ?dw) auto
  have "rev ?t = ?tw @ ?dw" by simp
  then have "?t = rev ?dw @ rev ?tw" by (metis rev_append rev_rev_ident)
  also have "rev ?dw = rev (drop 1 ?dw) @ [CHR ''.'']" by (subst dw) simp
  finally have t: "?t = rev (drop 1 ?dw) @ CHR ''.'' # rev ?tw" by simp
  have "fst (os_path_splitext p) @ snd (os_path_splitext p)
      = path_head_raw p @ rev (drop 1 ?dw) @ CHR ''.'' # rev ?tw"
    using True by (simp add: os_path_splitext_def Let_def)
  also have "\<dots> = path_head_raw p @ ?t" using t by simp
  finally show ?thesis by (simp add: head_tail_append)
qed

lemma splitext_base_empty: "fst (os_path_splitext p) = [] \<Longrightarrow> p = []"
  by (auto simp: os_path_splitext_def Let_def split: if_splits)

lemma unique_loop_result:
  assumes "unique_loop fs d base ext candidate counter = (c, n)"
  shows "\<not> os_path_exists fs (os_path_join d c) \<and> counter \<le> n
       \<and> (if os_path_exists fs (os_path_join d candidate)
          then counter < n \<and> c = numbered base ext (n - 1)
               \<and> (\<forall>j. counter \<le> j \<and> j + 1 < n \<longrightarrow> os_path_exists fs (os_path_join d (numbered base ext j)))
          else c = candidate \<and> n = counter)"
  using assms
proof (induction fs d base ext candidate counter rule: unique_loop.induct)
  case (1 fs d base ext candidate counter)
  show ?case
  proof (cases "os_path_exists fs (os_path_join d candidate)")
    case False
    with "1.prems" show ?thesis by (subst (asm) unique_loop.simps) auto
  next
    case True
    with "1.prems" have rec: "unique_loop fs d base ext (numbered base ext counter) (counter + 1) = (c, n)"
      by (subst (asm) unique_loop.simps) simp
    note ih = "1.IH" [OF True rec]
    show ?thesis
    proof (cases "os_path_exists fs (os_path_join d (numbered base ext counter))")
      case False
      with ih True show ?thesis by auto
    next
      case ex: True
      with ih have a: "counter + 1 < n" "c = numbered base ext (n - 1)"
        and b: "\<forall>j. counter + 1 \<le> j \<and> j + 1 < n \<longrightarrow> os_path_exists fs (os_path_join d (numbered base ext j))"
        and c: "\<not> os_path_exists fs (os_path_join d c)" by auto
      have "\<forall>j. counter \<le> j \<and> j + 1 < n \<longrightarrow> os_path_exists fs (os_path_join d (numbered base ext j))"
      proof (intro allI impI)
        fix j assume "counter \<le> j \<and> j + 1 < n"
        then show "os_path_exists fs (os_path_join d (numbered base ext j))"
          using b ex by (cases "j = counter") auto
      qed
      with a c True show ?thesis by auto
    qed
  qed
qed

lemma unique_loop_bound:
  "snd (unique_loop fs d base ext candidate counter)
     \<le> counter + card (taken fs d base ext counter)
         + (if os_path_exists fs (os_path_join d candidate) then 1 else 0)"
proof (induction fs d base ext candidate counter rule: unique_loop.induct)
  case (1 fs d base ext candidate counter)
  show ?case
  proof (cases "os_path_exists fs (os_path_join d candidate)")
    case False
    then show ?thesis by (subst unique_loop.simps) simp
  next
    case True
    from "1.IH" [OF True] True show ?thesis
      using card_taken_Suc [of fs d base ext counter]
      by (subst unique_loop.simps) (simp split: if_splits)
  qed
qed

lemma join_inj_same_start:
  assumes "os_path_join d x = os_path_join d y"
    and "(x \<noteq> [] \<and> hd x = CHR ''/'') = (y \<noteq> [] \<and> hd y = CHR ''/'')"
  shows "x = y"
  using assms by (auto simp: os_path_join_def split: if_splits)

lemma filename_not_numbered:
  "os_path_join d filename \<noteq>
   os_path_join d (numbered (fst (os_path_splitext filename)) (snd (os_path_splitext filename)) k)"
proof
  let ?b = "fst (os_path_splitext filename)" and ?e = "snd (os_path_splitext filename)"
  assume eq: "os_path_join d filename = os_path_join d (numbered ?b ?e k)"
  have f: "filename = ?b @ ?e" by (simp add: splitext_append)
  have "(filename \<noteq> [] \<and> hd filename = CHR ''/'')
      = (numbered ?b ?e k \<noteq> [] \<and> hd (numbered ?b ?e k) = CHR ''/'')"
  proof (cases "?b = []")
    case True
    then have "filename = []" by (rule splitext_base_empty)
    with True show ?thesis by (simp add: numbered_def)
  next
    case False
    then have "hd filename = hd ?b" "hd (numbered ?b ?e k) = hd ?b" "filename \<noteq> []"
      using f by (metis hd_append2, simp add: numbered_def, metis append_is_Nil_conv)
    then show ?thesis by (simp add: numbered_def)
  qed
  with eq have "filename = numbered ?b ?e k" by (rule join_inj_same_start)
  then have "length filename = length (numbered ?b ?e k)" by simp
  moreover have "length filename = length ?b + length ?e" by (subst f) simp
  ultimately show False by (simp add: numbered_def)
qed

lemma finite_colliding: "finite (colliding fs d filename)"
proof -
  have "colliding fs d filename \<subseteq> fst ` set fs"
    by (auto simp: colliding_def os_path_exists_def lookup_def map_of_eq_None_iff)
  then show ?thesis by (rule finite_subset) simp
qed

lemma taken_le_colliding:
  "card (taken fs d (fst (os_path_splitext filename)) (snd (os_path_splitext filename)) 1)
     + (if os_path_exists fs (os_path_join d filename) then 1 else 0)
   \<le> card (colliding fs d filename)"
proof -
  let ?b = "fst (os_path_splitext filename)" and ?e = "snd (os_path_splitext filename)"
  let ?f = "\<lambda>k. os_path_join d (numbered ?b ?e k)"
  let ?T = "taken fs d ?b ?e 1"
  let ?X = "if os_path_exists fs (os_path_join d filename) then {os_path_join d filename} else {}"
  have inj: "inj_on ?f ?T" by (rule inj_onI) (rule join_numbered_inj)
  have disj: "?f ` ?T \<inter> ?X = {}" using filename_not_numbered [of d filename] by auto
  have sub: "?f ` ?T \<union> ?X \<subseteq> colliding fs d filename"
    by (auto simp: colliding_def taken_def)
  have "card ?T + (if os_path_exists fs (os_path_join d filename) then 1 else 0)
      = card (?f ` ?T) + card ?X"
    using inj by (simp add: card_image)
  also have "\<dots> = card (?f ` ?T \<union> ?X)"
    using disj finite_taken [of fs d ?b ?e 1] by (subst card_Un_disjoint) auto
  also have "\<dots> \<le> card (colliding fs d filename)"
    using sub finite_colliding by (rule card_mono [rotated])
  finally show ?thesis .
qed

lemma unique_dest_path_loop:
  "unique_dest_path fs d filename
     = os_path_join d (fst (unique_loop fs d (fst (os_path_splitext filename))
                              (snd (os_path_splitext filename)) filename 1))"
  by (simp add: unique_dest_path_def split: prod.splits)

lemma unique_loop_cong:
  assumes "\<forall>p. os_path_exists fs2 p = os_path_exists fs p"
  shows "unique_loop fs2 d base ext candidate counter = unique_loop fs d base ext candidate counter"
  using assms
proof (induction fs d base ext candidate counter rule: unique_loop.induct)
  case (1 fs d base ext candidate counter)
  show ?case
  proof (cases "os_path_exists fs (os_path_join d candidate)")
    case True
    then have "os_path_exists fs2 (os_path_join d candidate)" using "1.prems" by simp
    then have "unique_loop fs2 d base ext candidate counter
        = unique_loop fs2 d base ext (numbered base ext counter) (counter + 1)"
      by (simp add: unique_loop.simps [of fs2 d base ext candidate counter])
    also have "\<dots> = unique_loop fs d base ext (numbered base ext counter) (counter + 1)"
      using "1.IH" [OF True "1.prems"] .
    also have "\<dots> = unique_loop fs d base ext candidate counter"
      using True by (simp add: unique_loop.simps [of fs d base ext candidate counter])
    finally show ?thesis .
  next
    case False
    then have "\<not> os_path_exists fs2 (os_path_join d candidate)" using "1.prems" by simp
    with False show ?thesis
      by (simp add: unique_loop.simps [of fs2 d base ext candidate counter]
          unique_loop.simps [of fs d base ext candidate counter])
  qed
qed

text \<open>
  C4. \<open>unique_dest_path\<close> returns \<open>dest_dir/filename\<close> when that path is free, and
  otherwise the first free one of \<open>name(1).ext\<close>, \<open>name(2).ext\<close>, ... (all earlier ones
  exist). The path returned does not exist. The function reads the store and returns a
  path, nothing else; on any store with the same existing paths it gives the same answer.
\<close>

theorem unique_dest_path_first_free:
  "(\<not> os_path_exists fs (os_path_join dest_dir filename)
      \<longrightarrow> unique_dest_path fs dest_dir filename = os_path_join dest_dir filename)
   \<and> (os_path_exists fs (os_path_join dest_dir filename)
      \<longrightarrow> (\<exists>k\<ge>1. unique_dest_path fs dest_dir filename
                 = os_path_join dest_dir
                     (numbered (fst (os_path_splitext filename)) (snd (os_path_splitext filename)) k)
             \<and> (\<forall>j. 1 \<le> j \<and> j < k
                   \<longrightarrow> os_path_exists fs
                         (os_path_join dest_dir
                            (numbered (fst (os_path_splitext filename))
                               (snd (os_path_splitext filename)) j)))))
   \<and> \<not> os_path_exists fs (unique_dest_path fs dest_dir filename)
   \<and> (\<forall>fs2. (\<forall>p. os_path_exists fs2 p = os_path_exists fs p)
         \<longrightarrow> unique_dest_path fs2 dest_dir filename = unique_dest_path fs dest_dir filename)"
proof -
  let ?b = "fst (os_path_splitext filename)" and ?e = "snd (os_path_splitext filename)"
  obtain c n where r: "unique_loop fs dest_dir ?b ?e filename 1 = (c, n)" by force
  note res = unique_loop_result [OF r]
  have u: "unique_dest_path fs dest_dir filename = os_path_join dest_dir c"
    using r by (simp add: unique_dest_path_loop)
  have a: "\<not> os_path_exists fs (os_path_join dest_dir filename)
      \<longrightarrow> unique_dest_path fs dest_dir filename = os_path_join dest_dir filename"
    using res u by auto
  have b: "os_path_exists fs (os_path_join dest_dir filename)
      \<longrightarrow> (\<exists>k\<ge>1. unique_dest_path fs dest_dir filename = os_path_join dest_dir (numbered ?b ?e k)
             \<and> (\<forall>j. 1 \<le> j \<and> j < k
                   \<longrightarrow> os_path_exists fs (os_path_join dest_dir (numbered ?b ?e j))))"
  proof
    assume ex: "os_path_exists fs (os_path_join dest_dir filename)"
    with res have n: "1 < n" and c: "c = numbered ?b ?e (n - 1)"
      and all: "\<forall>j. 1 \<le> j \<and> j + 1 < n \<longrightarrow> os_path_exists fs (os_path_join dest_dir (numbered ?b ?e j))"
      by auto
    show "\<exists>k\<ge>1. unique_dest_path fs dest_dir filename = os_path_join dest_dir (numbered ?b ?e k)
             \<and> (\<forall>j. 1 \<le> j \<and> j < k
                   \<longrightarrow> os_path_exists fs (os_path_join dest_dir (numbered ?b ?e j)))"
      using n c all u by (intro exI [of _ "n - 1"]) auto
  qed
  have c: "\<not> os_path_exists fs (unique_dest_path fs dest_dir filename)" using res u by simp
  have d: "\<forall>fs2. (\<forall>p. os_path_exists fs2 p = os_path_exists fs p)
         \<longrightarrow> unique_dest_path fs2 dest_dir filename = unique_dest_path fs dest_dir filename"
  proof (intro allI impI)
    fix fs2
    assume "\<forall>p. os_path_exists fs2 p = os_path_exists fs p"
    then show "unique_dest_path fs2 dest_dir filename = unique_dest_path fs dest_dir filename"
      by (simp add: unique_dest_path_loop unique_loop_cong [of fs2 fs])
  qed
  from a b c d show ?thesis by blast
qed

theorem unique_dest_path_first_free_witness:
  "os_path_exists store_taken (os_path_join ''d'' ''a.txt'')
   \<and> unique_dest_path store_taken ''d'' ''a.txt'' = ''d/a(2).txt''
   \<and> os_path_exists store_taken ''d/a(1).txt''
   \<and> \<not> os_path_exists store_taken ''d/a(2).txt''
   \<and> \<not> os_path_exists store_taken (os_path_join ''d'' ''b.txt'')
   \<and> unique_dest_path store_taken ''d'' ''b.txt'' = os_path_join ''d'' ''b.txt''"
proof -
  have a: "os_path_exists store_taken (os_path_join ''d'' ''a.txt'')" by code_simp
  have b: "\<not> os_path_exists store_taken (os_path_join ''d'' ''b.txt'')" by code_simp
  have c: "unique_dest_path store_taken ''d'' ''a.txt'' = ''d/a(2).txt''" by code_simp
  have d: "os_path_exists store_taken ''d/a(1).txt''" by code_simp
  from unique_dest_path_first_free [of store_taken "''d''" "''a.txt''"]
       unique_dest_path_first_free [of store_taken "''d''" "''b.txt''"] a b c d
  show ?thesis by simp
qed

text \<open>
  C10. The loop of \<open>unique_dest_path\<close> ends on every store (a store is finite): it
  returns a path that does not exist, and the number of candidates it tests is at most
  one more than the number of existing paths among the candidates.
\<close>

theorem unique_dest_path_terminates_within_bound:
  "\<not> os_path_exists fs (unique_dest_path fs dest_dir filename)
   \<and> finite (colliding fs dest_dir filename)
   \<and> candidates_tested fs dest_dir filename \<le> card (colliding fs dest_dir filename) + 1"
proof -
  let ?b = "fst (os_path_splitext filename)" and ?e = "snd (os_path_splitext filename)"
  obtain c n where r: "unique_loop fs dest_dir ?b ?e filename 1 = (c, n)" by force
  have "\<not> os_path_exists fs (unique_dest_path fs dest_dir filename)"
    using unique_loop_result [OF r] r by (simp add: unique_dest_path_loop)
  moreover have "candidates_tested fs dest_dir filename \<le> card (colliding fs dest_dir filename) + 1"
    using unique_loop_bound [of fs dest_dir ?b ?e filename 1] taken_le_colliding [of fs dest_dir filename]
    by (simp add: candidates_tested_def split: if_splits)
  ultimately show ?thesis by (simp add: finite_colliding)
qed

theorem unique_dest_path_terminates_within_bound_witness:
  "candidates_tested store_taken ''d'' ''a.txt'' = 3
   \<and> 3 \<le> card (colliding store_taken ''d'' ''a.txt'') + 1
   \<and> \<not> os_path_exists store_taken (unique_dest_path store_taken ''d'' ''a.txt'')"
proof -
  have "candidates_tested store_taken ''d'' ''a.txt'' = 3" by code_simp
  with unique_dest_path_terminates_within_bound [of store_taken "''d''" "''a.txt''"]
  show ?thesis by simp
qed

section \<open>The move log store\<close>



text \<open>
  C7. \<open>load_log\<close> never raises: it always returns a list. The list is empty when the
  log file does not exist and when reading it gives no list (the read fails, or the
  content is not a list); a stored list is returned as it is.
\<close>

theorem load_log_never_raises:
  "(\<exists>data. load_log fs output_folder = Inr data)
   \<and> (\<not> os_path_exists fs (os_path_join output_folder LOG_FILENAME)
        \<longrightarrow> load_log fs output_folder = Inr [])
   \<and> ((\<forall>l. json_load fs (os_path_join output_folder LOG_FILENAME) \<noteq> Inr (JList l))
        \<longrightarrow> load_log fs output_folder = Inr [])
   \<and> (\<forall>l. json_load fs (os_path_join output_folder LOG_FILENAME) = Inr (JList l)
        \<longrightarrow> load_log fs output_folder = Inr l)"
  by (auto simp: load_log_def Let_def json_load_def os_path_exists_def
      split: sum.splits json.splits option.splits node.splits content.splits)

theorem load_log_never_raises_witness:
  "(\<forall>l. json_load store_with_broken_log (os_path_join ''out'' LOG_FILENAME) \<noteq> Inr (JList l))
   \<and> load_log store_with_broken_log ''out'' = Inr []
   \<and> \<not> os_path_exists store_with_log (os_path_join ''in'' LOG_FILENAME)
   \<and> load_log store_with_log ''in'' = Inr []
   \<and> json_load store_with_log (os_path_join ''out'' LOG_FILENAME) = Inr (JList [record_a])
   \<and> load_log store_with_log ''out'' = Inr [record_a]"
proof -
  have broken: "json_load store_with_broken_log (os_path_join ''out'' LOG_FILENAME)
      = Inl JSONDecodeError"
    by code_simp
  have absent: "\<not> os_path_exists store_with_log (os_path_join ''in'' LOG_FILENAME)"
    by code_simp
  have valid: "json_load store_with_log (os_path_join ''out'' LOG_FILENAME)
      = Inr (JList [record_a])"
    by code_simp
  from load_log_never_raises [of store_with_broken_log "''out''"]
       load_log_never_raises [of store_with_log "''in''"]
       load_log_never_raises [of store_with_log "''out''"]
       broken absent valid
  show ?thesis by simp
qed

section \<open>The organizer\<close>

text \<open>
  C8. When the source folder does not exist, \<open>organize\<close> returns the empty list without
  raising; it prints one line, the diagnostic, and leaves the filesystem and the clock
  as they were.
\<close>

theorem organize_missing_source:
  assumes "\<not> os_path_exists (disk w) source_folder"
  shows "\<exists>w'. organize w source_folder output_folder dry_run = Inr (w', [])
           \<and> disk w' = disk w \<and> clock w' = clock w
           \<and> console w' = console w @ [''Source folder does not exist: '' @ source_folder]"
  using assms by (simp add: organize_def print_def)

theorem organize_missing_source_witness:
  "\<not> os_path_exists (disk world_in) ''nowhere''
   \<and> (\<exists>w'. organize world_in ''nowhere'' ''out'' False = Inr (w', [])
           \<and> disk w' = disk world_in \<and> clock w' = clock world_in
           \<and> console w' = console world_in @ [''Source folder does not exist: nowhere''])"
proof -
  have absent: "\<not> os_path_exists (disk world_in) ''nowhere''" by code_simp
  from organize_missing_source [OF absent, of "''out''" False] absent show ?thesis by simp
qed

text \<open>
  C2. A dry run is not free of effects on the filesystem: \<open>ensure_dir\<close> is called for
  the output folder and for each category folder before \<open>dry_run\<close> is looked at. On
  \<open>world_in\<close> the dry run creates \<open>out\<close>, \<open>out/Documents\<close>, \<open>out/Images\<close> and
  \<open>out/Others\<close>, none of which existed; it moves no file and writes no log.
\<close>

theorem dry_run_creates_directories:
  "organize world_in ''in'' ''out'' True = Inr (world_in_dry_run, [])
   \<and> \<not> os_path_exists (disk world_in) ''out''
   \<and> os_path_isdir (disk world_in_dry_run) ''out''
   \<and> os_path_isdir (disk world_in_dry_run) ''out/Documents''
   \<and> os_path_isdir (disk world_in_dry_run) ''out/Images''
   \<and> os_path_isdir (disk world_in_dry_run) ''out/Others''
   \<and> disk world_in_dry_run \<noteq> disk world_in"
proof -
  have "organize world_in ''in'' ''out'' True = Inr (world_in_dry_run, [])" by code_simp
  moreover have "\<not> os_path_exists (disk world_in) ''out''" by code_simp
  moreover have "os_path_isdir (disk world_in_dry_run) ''out''" by code_simp
  moreover have "os_path_isdir (disk world_in_dry_run) ''out/Documents''" by code_simp
  moreover have "os_path_isdir (disk world_in_dry_run) ''out/Images''" by code_simp
  moreover have "os_path_isdir (disk world_in_dry_run) ''out/Others''" by code_simp
  moreover have "disk world_in_dry_run \<noteq> disk world_in"
    by (simp add: world_in_dry_run_def world_in_def)
  ultimately show ?thesis by blast
qed

section \<open>The undo engine\<close>

text \<open>
  C1. After an undo with a failed restore the log is not the list of the failed entries:
  \<open>undo_moves\<close> hands them to \<open>write_log\<close>, which puts them behind the list the log
  file still holds. On \<open>world_partial\<close> the record of \<open>a.txt\<close> is reversed (the file is
  back at \<open>in/a.txt\<close>), the record of \<open>b.txt\<close> fails, and the log afterwards holds the
  record of \<open>a.txt\<close> and the record of \<open>b.txt\<close> twice.
\<close>

theorem undo_partial_failure_appends_to_log:
  "undo_moves world_partial ''out'' = Inr world_partial_undone
   \<and> stored_entries (disk world_partial) ''out'' = [record_a, record_b]
   \<and> lookup (disk world_partial_undone) ''in/a.txt'' = Some (File (Text ''A''))
   \<and> lookup (disk world_partial_undone) ''out/Documents/a.txt'' = None
   \<and> lookup (disk world_partial_undone) ''out/Documents/b.txt'' = Some (File (Text ''B''))
   \<and> stored_entries (disk world_partial_undone) ''out'' = [record_a, record_b, record_b]
   \<and> stored_entries (disk world_partial_undone) ''out'' \<noteq> [record_b]"
proof -
  have "undo_moves world_partial ''out'' = Inr world_partial_undone" by code_simp
  moreover have "stored_entries (disk world_partial) ''out'' = [record_a, record_b]"
    by code_simp
  moreover have "lookup (disk world_partial_undone) ''in/a.txt'' = Some (File (Text ''A''))"
    by code_simp
  moreover have "lookup (disk world_partial_undone) ''out/Documents/a.txt'' = None"
    by code_simp
  moreover have "lookup (disk world_partial_undone) ''out/Documents/b.txt''
      = Some (File (Text ''B''))"
    by code_simp
  moreover have "stored_entries (disk world_partial_undone) ''out''
      = [record_a, record_b, record_b]"
    by code_simp
  ultimately show ?thesis by simp
qed

text \<open>
  C9. A record without \<open>src\<close> is passed over without a line printed and without being
  put on the failed list, yet it is still in the log that an undo with a failure writes
  back: on \<open>world_skip\<close> the log afterwards holds the record without \<open>src\<close>, and the
  failed record twice. The two lines printed are those of the failed record and of the
  end of the run.
\<close>

theorem undo_keeps_skipped_entry_in_log:
  "undo_moves world_skip ''out'' = Inr world_skip_undone
   \<and> dict_get [(''timestamp'', JStr ''0''), (''dest'', JStr ''out/Documents/a.txt'')] ''src''
       = JNull
   \<and> stored_entries (disk world_skip) ''out'' = [record_no_src, record_b]
   \<and> stored_entries (disk world_skip_undone) ''out'' = [record_no_src, record_b, record_b]
   \<and> record_no_src \<in> set (stored_entries (disk world_skip_undone) ''out'')
   \<and> length (console world_skip_undone) = 2"
proof -
  have "undo_moves world_skip ''out'' = Inr world_skip_undone" by code_simp
  moreover have
    "dict_get [(''timestamp'', JStr ''0''), (''dest'', JStr ''out/Documents/a.txt'')] ''src''
       = JNull"
    by code_simp
  moreover have "stored_entries (disk world_skip) ''out'' = [record_no_src, record_b]"
    by code_simp
  moreover have s: "stored_entries (disk world_skip_undone) ''out''
      = [record_no_src, record_b, record_b]"
    by code_simp
  moreover have "length (console world_skip_undone) = 2"
    by (simp add: world_skip_undone_def)
  ultimately show ?thesis by simp
qed

section \<open>Path strings\<close>

lemma join_pre: "relative b \<Longrightarrow> os_path_join a b = pre a @ b"
  by (auto simp: relative_def os_path_join_def pre_def)

lemma good_name_relative: "good_name n \<Longrightarrow> relative n"
  by (cases n) (auto simp: good_name_def relative_def)

lemma pre_last: "pre a = [] \<or> last (pre a) = CHR ''/''"
  by (simp add: pre_def)

lemma head_raw_pre_name:
  assumes "CHR ''/'' \<notin> set n"
  shows "path_head_raw (pre a @ n) = pre a"
proof -
  have "dropWhile (\<lambda>c. c \<noteq> CHR ''/'') (rev n @ rev (pre a))
      = dropWhile (\<lambda>c. c \<noteq> CHR ''/'') (rev (pre a))"
    using assms by (intro dropWhile_append2) auto
  also have "\<dots> = rev (pre a)"
    using pre_last [of a] by (cases "rev (pre a)") (auto simp: last_rev [symmetric] simp del: last_rev)
  finally show ?thesis by (simp add: path_head_raw_def)
qed

lemma tail_pre_name:
  assumes "CHR ''/'' \<notin> set n"
  shows "path_tail (pre a @ n) = n"
  using head_tail_append [of "pre a @ n"] head_raw_pre_name [OF assms, of a] by simp

lemma dirname_join_length:
  assumes "good_name n"
  shows "length (os_path_dirname (os_path_join a n)) \<le> length (pre a)"
  using assms length_split_fst [of "pre a @ n"]
  by (simp add: join_pre good_name_relative os_path_dirname_def head_raw_pre_name good_name_def)

lemma join_longer: "good_name n \<Longrightarrow> length (pre a) < length (os_path_join a n)"
  by (simp add: join_pre good_name_relative) (simp add: good_name_def)

lemma join_relative_inj: "relative x \<Longrightarrow> relative y \<Longrightarrow> os_path_join a x = os_path_join a y \<Longrightarrow> x = y"
  by (simp add: join_pre)

lemma join_nonempty: "b \<noteq> [] \<Longrightarrow> os_path_join a b \<noteq> []"
  by (auto simp: os_path_join_def)

lemma join_nonempty_left: "a \<noteq> [] \<Longrightarrow> os_path_join a b \<noteq> []"
  by (auto simp: os_path_join_def)

lemma listdir_names:
  assumes "os_listdir fs source_folder = Inr names"
  shows "distinct names"
    and "\<forall>n\<in>set names. good_name n \<and> lookup fs (os_path_join source_folder n) \<noteq> None"
proof -
  let ?ks = "filter (\<lambda>p. os_path_basename p \<noteq> [] \<and> os_path_join source_folder (os_path_basename p) = p) (map fst fs)"
  from assms have n: "names = remdups (map os_path_basename ?ks)"
    by (auto simp: os_listdir_def split: option.splits node.splits)
  then show "distinct names" by simp
  show "\<forall>n\<in>set names. good_name n \<and> lookup fs (os_path_join source_folder n) \<noteq> None"
  proof
    fix m assume "m \<in> set names"
    with n obtain p where p: "p \<in> set (map fst fs)" "os_path_basename p \<noteq> []"
      "os_path_join source_folder (os_path_basename p) = p" "m = os_path_basename p"
      by auto
    have "CHR ''/'' \<notin> set (os_path_basename p)"
      by (auto simp: os_path_basename_def path_tail_def dest: set_takeWhileD)
    moreover have "lookup fs p \<noteq> None" using p(1) by (simp add: lookup_def map_of_eq_None_iff)
    ultimately show "good_name m \<and> lookup fs (os_path_join source_folder m) \<noteq> None"
      using p by (simp add: good_name_def)
  qed
qed

lemma category_loop_in: "category_loop tbl ext = Some c \<Longrightarrow> c \<in> fst ` set tbl"
  by (induction tbl ext rule: category_loop.induct) (auto split: if_splits)


lemma category_of_in: "category_of n \<in> set categories"
  using category_loop_in [of FILE_TYPES "str_lower (snd (os_path_splitext n))"]
  by (auto simp: category_of_def categories_def get_category_for_extension_def Let_def
      split: option.splits)

lemma category_shape:
  assumes "c \<in> set categories"
  shows "c \<noteq> []" "relative c" "last c \<noteq> CHR ''/''" "length c \<le> 9"
  using assms by (auto simp: categories_def FILE_TYPES_def relative_def)

lemma dest_dir_shape:
  assumes "c \<in> set categories"
  shows "os_path_join out c = pre out @ c" "pre (os_path_join out c) = pre out @ c @ ''/''"
    "length (os_path_join out c) \<le> length (pre out) + 9"
  using category_shape [OF assms] by (auto simp: join_pre pre_def)

lemma log_path_shape:
  "os_path_join out LOG_FILENAME = pre out @ LOG_FILENAME"
  "length (os_path_join out LOG_FILENAME) = length (pre out) + 17"
  by (simp_all add: join_pre relative_def LOG_FILENAME_def)

lemma log_bound: "dir_bound out < length (os_path_join out LOG_FILENAME)"
  by (simp add: dir_bound_def log_path_shape(2))

lemma dest_not_log:
  assumes "c \<in> set categories" "relative cand"
  shows "os_path_join (os_path_join out c) cand \<noteq> os_path_join out LOG_FILENAME"
proof
  assume "os_path_join (os_path_join out c) cand = os_path_join out LOG_FILENAME"
  then have "c @ ''/'' @ cand = LOG_FILENAME"
    using assms dest_dir_shape(2) [OF assms(1), of out]
    by (simp add: join_pre [OF assms(2)] log_path_shape)
  then have "CHR ''/'' \<in> set LOG_FILENAME" by (metis in_set_conv_decomp append_Cons append_Nil)
  then show False by (simp add: LOG_FILENAME_def)
qed

lemma digit_char_not_sep: "d < 10 \<Longrightarrow> digit_char d \<noteq> CHR ''/''"
proof
  assume d: "d < 10" and "digit_char d = CHR ''/''"
  then have "(of_char (char_of (48 + d) :: char) :: nat) = of_char CHR ''/''"
    by (simp add: digit_char_def)
  with d show False by simp
qed

lemma str_nat_no_sep: "CHR ''/'' \<notin> set (str_nat k)"
proof (induction k rule: str_nat.induct)
  case (1 n)
  show ?case
  proof (cases "n < 10")
    case True
    then show ?thesis using digit_char_not_sep [of n] by (subst str_nat.simps) auto
  next
    case False
    then show ?thesis
      using "1.IH" digit_char_not_sep [of "n mod 10"] by (subst str_nat.simps) auto
  qed
qed

lemma numbered_good:
  assumes "good_name n"
  shows "good_name (numbered (fst (os_path_splitext n)) (snd (os_path_splitext n)) k)"
proof -
  let ?b = "fst (os_path_splitext n)" and ?e = "snd (os_path_splitext n)"
  have "set ?b \<union> set ?e = set n" using splitext_append [of n] by (metis set_append)
  then have "CHR ''/'' \<notin> set ?b" "CHR ''/'' \<notin> set ?e" using assms by (auto simp: good_name_def)
  then show ?thesis using str_nat_no_sep [of k] by (simp add: numbered_def good_name_def)
qed

lemma unique_dest_path_shape:
  assumes "good_name n"
  shows "\<exists>cand. good_name cand \<and> unique_dest_path fs dd n = os_path_join dd cand"
proof -
  let ?b = "fst (os_path_splitext n)" and ?e = "snd (os_path_splitext n)"
  obtain c k where r: "unique_loop fs dd ?b ?e n 1 = (c, k)" by force
  from unique_loop_result [OF r] have "c = n \<or> c = numbered ?b ?e (k - 1)"
    by (auto split: if_splits)
  then have "good_name c" using numbered_good [OF assms] assms by auto
  moreover have "unique_dest_path fs dd n = os_path_join dd c"
    using r by (simp add: unique_dest_path_loop)
  ultimately show ?thesis by blast
qed

lemma unique_dest_path_free: "\<not> os_path_exists fs (unique_dest_path fs d n)"
proof -
  obtain c k where r: "unique_loop fs d (fst (os_path_splitext n)) (snd (os_path_splitext n)) n 1 = (c, k)"
    by force
  from unique_loop_result [OF r] r show ?thesis by (simp add: unique_dest_path_loop)
qed

section \<open>Runs of moves\<close>

lemma adds_dirs_files: "adds_dirs n fs fs' \<Longrightarrow> files_of fs' = files_of fs"
proof (rule ext)
  fix p
  assume "adds_dirs n fs fs'"
  then have "lookup fs' p = lookup fs p \<or> (lookup fs p = None \<and> lookup fs' p = Some Dir)"
    unfolding adds_dirs_def by blast
  then show "files_of fs' p = files_of fs p" by (auto simp: files_of_def)
qed

lemma adds_dirs_present: "adds_dirs n fs fs' \<Longrightarrow> lookup fs x = Some v \<Longrightarrow> lookup fs' x = Some v"
  unfolding adds_dirs_def by (metis option.distinct(1))

lemma adds_dirs_present_ne: "adds_dirs n fs fs' \<Longrightarrow> lookup fs x \<noteq> None \<Longrightarrow> lookup fs' x \<noteq> None"
  unfolding adds_dirs_def by metis

lemma adds_dirs_absent:
  "adds_dirs n fs fs' \<Longrightarrow> lookup fs x = None \<Longrightarrow> n < length x \<Longrightarrow> lookup fs' x = None"
  unfolding adds_dirs_def by (metis not_le)

lemma adds_dirs_back: "adds_dirs n fs fs' \<Longrightarrow> lookup fs' x = Some (File c) \<Longrightarrow> lookup fs x = Some (File c)"
  unfolding adds_dirs_def by (metis node.distinct(1) option.inject)

lemma adds_dirs_back_none: "adds_dirs n fs fs' \<Longrightarrow> lookup fs' x = None \<Longrightarrow> lookup fs x = None"
  unfolding adds_dirs_def by (metis option.distinct(1))

lemma run_adds_prefix: "adds_dirs N fs fs' \<Longrightarrow> run N fs' ms T \<Longrightarrow> run N fs ms T"
  by (cases ms) (auto intro: adds_dirs_trans)

lemma run_dir_persist: "run N fs ms T \<Longrightarrow> lookup fs x = Some Dir \<Longrightarrow> lookup T x = Some Dir"
proof (induction ms arbitrary: fs)
  case Nil
  then show ?case by (auto dest: adds_dirs_present)
next
  case (Cons m ms)
  obtain ts p d c where m: "m = (ts, p, d, c)" by (cases m) auto
  from Cons.prems(1) m obtain fs1 fs2 where s: "adds_dirs N fs fs1" "lookup fs1 p = Some (File c)"
    "lookup fs1 d = None" "lookup fs2 = (lookup fs1)(p := None, d \<mapsto> File c)" "run N fs2 ms T"
    by auto
  have "lookup fs1 x = Some Dir" using s(1) Cons.prems(2) by (rule adds_dirs_present)
  then have "lookup fs2 x = Some Dir" using s(2,3,4) by auto
  with Cons.IH [OF s(5)] show ?case .
qed

lemma run_preserves:
  "run N fs ms T \<Longrightarrow> lookup fs x = Some v \<Longrightarrow> x \<notin> (\<lambda>m. fst (snd m)) ` set ms \<Longrightarrow> lookup T x = Some v"
proof (induction ms arbitrary: fs)
  case Nil
  then show ?case by (auto dest: adds_dirs_present)
next
  case (Cons m ms)
  obtain ts p d c where m: "m = (ts, p, d, c)" by (cases m) auto
  from Cons.prems(1) m obtain fs1 fs2 where s: "adds_dirs N fs fs1" "lookup fs1 p = Some (File c)"
    "lookup fs1 d = None" "lookup fs2 = (lookup fs1)(p := None, d \<mapsto> File c)" "run N fs2 ms T"
    by auto
  have "lookup fs1 x = Some v" using s(1) Cons.prems(2) by (rule adds_dirs_present)
  moreover have "x \<noteq> p" using Cons.prems(3) m by auto
  ultimately have "lookup fs2 x = Some v" using s(3,4) by auto
  moreover have "x \<notin> (\<lambda>m. fst (snd m)) ` set ms" using Cons.prems(3) by auto
  ultimately show ?case using Cons.IH [OF s(5)] by blast
qed

lemma run_absent_long:
  "run N fs ms T \<Longrightarrow> lookup fs x = None \<Longrightarrow> N < length x
     \<Longrightarrow> x \<notin> (\<lambda>m. fst (snd (snd m))) ` set ms \<Longrightarrow> lookup T x = None"
proof (induction ms arbitrary: fs)
  case Nil
  then show ?case by (auto dest: adds_dirs_absent)
next
  case (Cons m ms)
  obtain ts p d c where m: "m = (ts, p, d, c)" by (cases m) auto
  from Cons.prems(1) m obtain fs1 fs2 where s: "adds_dirs N fs fs1" "lookup fs1 p = Some (File c)"
    "lookup fs1 d = None" "lookup fs2 = (lookup fs1)(p := None, d \<mapsto> File c)" "run N fs2 ms T"
    by auto
  have "lookup fs1 x = None" using s(1) Cons.prems(2,3) by (rule adds_dirs_absent)
  moreover have "x \<noteq> d" using Cons.prems(4) m by auto
  ultimately have "lookup fs2 x = None" using s(4) by auto
  moreover have "x \<notin> (\<lambda>m. fst (snd (snd m))) ` set ms" using Cons.prems(4) by auto
  ultimately show ?case using Cons.IH [OF s(5)] Cons.prems(3) by blast
qed

lemma shutil_move_file:
  assumes "lookup fs p = Some (File c)" and "lookup fs d = None" and "shutil_move fs p d = Inr fs'"
  shows "lookup fs' = (lookup fs)(p := None, d \<mapsto> File c)"
  using assms
  by (auto simp: shutil_move_def os_rename_def os_path_isdir_def lookup_update lookup_delete
      split: option.splits if_splits)



lemma log_absent_after_ensure:
  assumes "adds_dirs (length out) fs fs1" and "\<not> os_path_exists fs (os_path_join out LOG_FILENAME)"
  shows "lookup fs1 (os_path_join out LOG_FILENAME) = None"
  using assms length_join_log [of out] by (auto simp: os_path_exists_def dest: adds_dirs_absent)

lemma makedirs_existing:
  assumes "os_path_isdir fs name"
    and "fst (makedirs_parts name) = [] \<or> os_path_exists fs (fst (makedirs_parts name))"
  shows "os_makedirs fs name = Inr fs"
proof -
  obtain head tail where parts: "makedirs_parts name = (head, tail)" by force
  have "os_mkdir fs name \<noteq> Inr fs'" for fs'
    using assms(1) by (auto simp: os_mkdir_def os_path_isdir_def os_path_exists_def split: option.splits)
  then have "(case os_mkdir fs name of
              Inl e' \<Rightarrow> if os_path_isdir fs name then Inr fs else Inl e'
            | Inr fs' \<Rightarrow> Inr fs') = Inr fs"
    using assms(1) by (cases "os_mkdir fs name") auto
  then show ?thesis
    using assms(2) parts by (subst os_makedirs.simps) auto
qed

lemma shutil_move_file_ok:
  assumes "lookup fs d = Some (File c)" and "lookup fs p = None" and "p \<noteq> []"
    and "os_path_dirname p = [] \<or> os_path_isdir fs (os_path_dirname p)"
  shows "\<exists>fs'. shutil_move fs d p = Inr fs'"
  using assms
  by (auto simp: shutil_move_def os_rename_def os_path_isdir_def check_parent_def Let_def)

lemma rstrip_sep_snoc:
  assumes "a \<noteq> []" and "last a \<noteq> CHR ''/''"
  shows "rstrip_sep (a @ ''/'') = a"
proof -
  from assms(1) obtain b x where a: "a = b @ [x]" by (cases a rule: rev_cases) auto
  with assms(2) have "x \<noteq> CHR ''/''" by simp
  then show ?thesis by (simp add: rstrip_sep_def a)
qed

lemma tail_nonempty_normal:
  assumes "a \<noteq> []" and "last a \<noteq> CHR ''/''"
  shows "path_tail a \<noteq> []"
proof -
  from assms(1) obtain b x where a: "a = b @ [x]" by (cases a rule: rev_cases) auto
  with assms(2) have "x \<noteq> CHR ''/''" by simp
  then show ?thesis by (simp add: path_tail_def a)
qed

lemma dirname_join_normal:
  assumes "a \<noteq> []" and "last a \<noteq> CHR ''/''" and "good_name n"
  shows "os_path_dirname (os_path_join a n) = a"
proof -
  from assms(1) obtain b x where a: "a = b @ [x]" by (cases a rule: rev_cases) auto
  with assms(2) have x: "x \<noteq> CHR ''/''" by simp
  have pre: "pre a = a @ ''/''" using assms(1,2) by (simp add: pre_def)
  have j: "os_path_join a n = pre a @ n"
    by (rule join_pre [OF good_name_relative [OF assms(3)]])
  have "CHR ''/'' \<notin> set n" using assms(3) by (simp add: good_name_def)
  then have h: "path_head_raw (pre a @ n) = pre a" by (rule head_raw_pre_name)
  have na: "\<not> list_all (\<lambda>c. c = CHR ''/'') (pre a)" using x by (simp add: pre_def a)
  have ne: "pre a \<noteq> []" by (simp add: pre)
  have "os_path_dirname (pre a @ n) = rstrip_sep (pre a)"
    by (simp add: os_path_dirname_def os_path_split_def Let_def h na ne)
  also have "\<dots> = a" using rstrip_sep_snoc [OF assms(1,2)] by (simp only: pre)
  finally show ?thesis by (simp only: j)
qed

lemma makedirs_parts_normal:
  assumes "a \<noteq> []" and "last a \<noteq> CHR ''/''"
  shows "fst (makedirs_parts a) = os_path_dirname a"
  using tail_nonempty_normal [OF assms]
  by (simp add: makedirs_parts_def os_path_dirname_def os_path_split_def Let_def)

section \<open>The loop of organize as a run\<close>

lemma disk_print [simp]: "disk (print w s) = disk w"
  by (simp add: print_def)

lemma disk_print_summary [simp]: "disk (print_summary w counts t s) = disk w"
proof -
  have "\<And>v. disk (foldl (\<lambda>v (cat, cnt). print v (cat @ '': '' @ str_nat cnt)) v counts) = disk v"
    by (induction counts) (auto simp: case_prod_beta)
  then show ?thesis by (simp add: print_summary_def Let_def)
qed

lemma organize_file_step:
  assumes "organize_file src out False (w, acc, cnt, sk, tot) n = Inr (w', acc', cnt', sk', tot')"
    and "good_name n" and "lookup (disk w) (os_path_join src n) \<noteq> None"
  shows "(adds_dirs (dir_bound out) (disk w) (disk w') \<and> acc' = acc)
       \<or> (\<exists>fs1 cand c ts. adds_dirs (dir_bound out) (disk w) fs1
            \<and> lookup fs1 (os_path_join src n) = Some (File c)
            \<and> lookup fs1 (os_path_join (os_path_join out (category_of n)) cand) = None
            \<and> good_name cand
            \<and> lookup (disk w') = (lookup fs1)(os_path_join src n := None,
                   os_path_join (os_path_join out (category_of n)) cand \<mapsto> File c)
            \<and> acc' = acc @ [move_record ts (os_path_join src n)
                              (os_path_join (os_path_join out (category_of n)) cand)])"
proof (cases "os_path_isdir (disk w) (os_path_join src n)")
  case True
  with assms(1) show ?thesis by (auto simp: organize_file_def adds_dirs_refl)
next
  case False
  let ?p = "os_path_join src n" and ?dd = "os_path_join out (category_of n)"
  from False assms(3) obtain c where c: "lookup (disk w) ?p = Some (File c)"
    by (cases "lookup (disk w) ?p") (auto simp: os_path_isdir_def intro: node.exhaust)
  from assms(1) False obtain fs1 where e: "ensure_dir (disk w) ?dd = Inr fs1"
    by (auto simp: organize_file_def Let_def split: sum.splits)
  have "adds_dirs (length ?dd) (disk w) fs1" using e by (simp add: ensure_dir_def makedirs_adds)
  then have ad: "adds_dirs (dir_bound out) (disk w) fs1"
    using dest_dir_shape(3) [OF category_of_in, of out n]
    by (auto intro: adds_dirs_mono simp: dir_bound_def)
  have p1: "lookup fs1 ?p = Some (File c)" using ad c by (rule adds_dirs_present)
  let ?d = "unique_dest_path fs1 ?dd n"
  obtain cand where cand: "good_name cand" "?d = os_path_join ?dd cand"
    using unique_dest_path_shape [OF assms(2), of fs1 ?dd] by blast
  have d1: "lookup fs1 ?d = None"
    using unique_dest_path_free [of fs1 ?dd n] by (simp add: os_path_exists_def)
  show ?thesis
  proof (cases "shutil_move fs1 ?p ?d")
    case (Inl err)
    with assms(1) False e have "disk w' = fs1" "acc' = acc"
      by (auto simp: organize_file_def Let_def)
    with ad show ?thesis by simp
  next
    case (Inr fs2)
    from shutil_move_file [OF p1 d1 Inr] have l2: "lookup fs2 = (lookup fs1)(?p := None, ?d \<mapsto> File c)" .
    from assms(1) False e Inr have "disk w' = fs2"
      "\<exists>ts. acc' = acc @ [move_record ts ?p ?d]"
      by (auto simp: organize_file_def Let_def datetime_now_isoformat_def move_record_def)
    with ad p1 d1 l2 cand show ?thesis by (intro disjI2) (auto simp del: fun_upd_apply)
  qed
qed

lemma move_ok_mono: "move_ok src out A m \<Longrightarrow> A \<subseteq> B \<Longrightarrow> move_ok src out B m"
  unfolding move_ok_def by (cases m) blast

lemma organize_loop_run:
  assumes "organize_loop src out False (w, acc, cnt, sk, tot) ns = Inr (w', acc', cnt', sk', tot')"
    and "distinct ns"
    and "\<forall>n\<in>set ns. good_name n \<and> lookup (disk w) (os_path_join src n) \<noteq> None"
  shows "\<exists>ms. acc' = acc @ map record_of ms \<and> run (dir_bound out) (disk w) ms (disk w')
           \<and> (\<forall>m\<in>set ms. move_ok src out (set ns) m) \<and> (\<forall>m\<in>set ms. placed (disk w') m)
           \<and> (\<forall>m\<in>set ms. sourced (disk w) m)"
  using assms
proof (induction ns arbitrary: w acc cnt sk tot)
  case Nil
  then show ?case by (auto simp: adds_dirs_refl intro: exI [of _ "[]"])
next
  case (Cons n ns)
  let ?N = "dir_bound out" and ?p = "os_path_join src n"
  from Cons.prems(1) obtain st where step: "organize_file src out False (w, acc, cnt, sk, tot) n = Inr st"
    and rest: "organize_loop src out False st ns = Inr (w', acc', cnt', sk', tot')"
    by (auto split: sum.splits)
  obtain w2 acc2 cnt2 sk2 tot2 where st: "st = (w2, acc2, cnt2, sk2, tot2)" by (cases st) auto
  have gn: "good_name n" and pn: "lookup (disk w) ?p \<noteq> None" using Cons.prems(3) by auto
  have dn: "distinct ns" and nn: "n \<notin> set ns" using Cons.prems(2) by auto
  from organize_file_step [OF step [unfolded st] gn pn]
  consider (skip) "adds_dirs ?N (disk w) (disk w2)" "acc2 = acc"
    | (move) fs1 cand c ts where "adds_dirs ?N (disk w) fs1"
        "lookup fs1 ?p = Some (File c)"
        "lookup fs1 (os_path_join (os_path_join out (category_of n)) cand) = None"
        "good_name cand"
        "lookup (disk w2) = (lookup fs1)(?p := None,
            os_path_join (os_path_join out (category_of n)) cand \<mapsto> File c)"
        "acc2 = acc @ [move_record ts ?p (os_path_join (os_path_join out (category_of n)) cand)]"
    by blast
  then show ?case
  proof cases
    case skip
    have inv: "\<forall>m\<in>set ns. good_name m \<and> lookup (disk w2) (os_path_join src m) \<noteq> None"
    proof
      fix m assume "m \<in> set ns"
      then have "good_name m" "lookup (disk w) (os_path_join src m) \<noteq> None"
        using Cons.prems(3) by auto
      then show "good_name m \<and> lookup (disk w2) (os_path_join src m) \<noteq> None"
        using adds_dirs_present_ne [OF skip(1)] by simp
    qed
    from Cons.IH [OF rest [unfolded st] dn inv] obtain ms where
      ms: "acc' = acc2 @ map record_of ms" "run ?N (disk w2) ms (disk w')"
          "\<forall>m\<in>set ms. move_ok src out (set ns) m" "\<forall>m\<in>set ms. placed (disk w') m"
          "\<forall>m\<in>set ms. sourced (disk w2) m"
      by blast
    have "run ?N (disk w) ms (disk w')" using skip(1) ms(2) by (rule run_adds_prefix)
    moreover have "\<forall>m\<in>set ms. move_ok src out (set (n # ns)) m"
      using ms(3) by (auto intro: move_ok_mono)
    moreover have "\<forall>m\<in>set ms. sourced (disk w) m"
      using ms(5) adds_dirs_back [OF skip(1)] by (auto simp: sourced_def)
    ultimately show ?thesis using ms(1,4) skip(2) by blast
  next
    case move
    let ?d = "os_path_join (os_path_join out (category_of n)) cand"
    have inv: "\<forall>m\<in>set ns. good_name m \<and> lookup (disk w2) (os_path_join src m) \<noteq> None"
    proof
      fix m assume m: "m \<in> set ns"
      then have g: "good_name m" and pm: "lookup (disk w) (os_path_join src m) \<noteq> None"
        using Cons.prems(3) by auto
      have "os_path_join src m \<noteq> ?p"
        using join_relative_inj [OF good_name_relative [OF g] good_name_relative [OF gn], of src] m nn
        by auto
      moreover have "lookup fs1 (os_path_join src m) \<noteq> None"
        using pm move(1) by (rule adds_dirs_present_ne [rotated])
      ultimately show "good_name m \<and> lookup (disk w2) (os_path_join src m) \<noteq> None"
        using g move(5) by auto
    qed
    from Cons.IH [OF rest [unfolded st] dn inv] obtain ms where
      ms: "acc' = acc2 @ map record_of ms" "run ?N (disk w2) ms (disk w')"
          "\<forall>m\<in>set ms. move_ok src out (set ns) m" "\<forall>m\<in>set ms. placed (disk w') m"
          "\<forall>m\<in>set ms. sourced (disk w2) m"
      by blast
    let ?m = "(ts, ?p, ?d, c)"
    have r: "run ?N (disk w) (?m # ms) (disk w')"
      using move(1,2,3,5) ms(2) by auto
    have ok: "move_ok src out (set (n # ns)) ?m"
      using gn move(4) by (auto simp: move_ok_def)
    have "?d \<notin> (\<lambda>m. fst (snd m)) ` set ms"
    proof
      assume "?d \<in> (\<lambda>m. fst (snd m)) ` set ms"
      then obtain m where m: "m \<in> set ms" "fst (snd m) = ?d" by auto
      with ms(3) obtain k where "k \<in> set ns" "?d = os_path_join src k"
        by (cases m) (auto simp: move_ok_def)
      then have "lookup (disk w) ?d \<noteq> None" using Cons.prems(3) by auto
      then have "lookup fs1 ?d \<noteq> None" by (rule adds_dirs_present_ne [OF move(1)])
      with move(3) show False by simp
    qed
    moreover have "lookup (disk w2) ?d = Some (File c)" using move(5) by simp
    ultimately have pl: "placed (disk w') ?m"
      using run_preserves [OF ms(2)] by (simp add: placed_def)
    have "acc' = acc @ map record_of (?m # ms)"
      using ms(1) move(6) by (simp add: record_of_def)
    moreover have "\<forall>m\<in>set (?m # ms). move_ok src out (set (n # ns)) m"
      using ok ms(3) by (auto intro: move_ok_mono)
    moreover have "\<forall>m\<in>set (?m # ms). placed (disk w') m" using pl ms(4) by auto
    moreover have "\<forall>m\<in>set (?m # ms). sourced (disk w) m"
    proof
      fix m assume m: "m \<in> set (?m # ms)"
      show "sourced (disk w) m"
      proof (cases "m = ?m")
        case True
        then show ?thesis using adds_dirs_back [OF move(1) move(2)] by (simp add: sourced_def)
      next
        case False
        with m have mm: "m \<in> set ms" by simp
        obtain ts' p' d' c' where m': "m = (ts', p', d', c')" by (cases m) auto
        from ms(5) mm m' have s2: "lookup (disk w2) p' = Some (File c')" by (auto simp: sourced_def)
        from ms(3) mm m' obtain k where k: "k \<in> set ns" "p' = os_path_join src k"
          by (auto simp: move_ok_def)
        have "lookup (disk w) p' \<noteq> None" using Cons.prems(3) k by auto
        then have "lookup fs1 p' \<noteq> None" by (rule adds_dirs_present_ne [OF move(1)])
        then have "p' \<noteq> ?d" using move(3) by auto
        moreover have "p' \<noteq> ?p"
          using join_relative_inj [of k n src] k nn Cons.prems(3) gn
          by (auto dest: good_name_relative)
        ultimately have "lookup fs1 p' = Some (File c')" using s2 move(5) by simp
        then show ?thesis using adds_dirs_back [OF move(1)] m' by (simp add: sourced_def)
      qed
    qed
    ultimately show ?thesis using r by blast
  qed
qed

lemma organize_run:
  assumes "organize w src out False = Inr (w1, entries)" and ex: "os_path_exists (disk w) src"
  shows "\<exists>fs1 ns ms T. adds_dirs (length out) (disk w) fs1
      \<and> distinct ns
      \<and> (\<forall>n\<in>set ns. good_name n \<and> lookup fs1 (os_path_join src n) \<noteq> None)
      \<and> entries = map record_of ms
      \<and> run (dir_bound out) fs1 ms T
      \<and> (\<forall>m\<in>set ms. move_ok src out (set ns) m)
      \<and> (\<forall>m\<in>set ms. placed T m)
      \<and> (\<forall>m\<in>set ms. sourced fs1 m)
      \<and> (if entries = [] then disk w1 = T else write_log T out entries = Inr (disk w1))
      \<and> lookup fs1 src = Some Dir"
proof -
  from assms obtain fs1 where e: "ensure_dir (disk w) out = Inr fs1"
    by (auto simp: organize_def split: sum.splits)
  with assms ex obtain ns where l: "os_listdir fs1 src = Inr ns"
    by (auto simp: organize_def split: sum.splits)
  with assms ex e obtain st where lp: "organize_loop src out False (w\<lparr>disk := fs1\<rparr>, [], [], 0, 0) ns = Inr st"
    by (auto simp: organize_def split: sum.splits)
  obtain w2 acc cnt sk tot where st: "st = (w2, acc, cnt, sk, tot)" by (cases st) auto
  from assms ex e l lp st have ent: "acc = entries"
    by (auto simp: organize_def Let_def split: sum.splits if_splits)
  from assms ex e l lp st ent have fin:
    "if entries = [] then disk w1 = disk w2 else write_log (disk w2) out entries = Inr (disk w1)"
    by (auto simp: organize_def Let_def split: sum.splits if_splits)
  have ad: "adds_dirs (length out) (disk w) fs1" using e by (simp add: ensure_dir_def makedirs_adds)
  from listdir_names [OF l] have d: "distinct ns"
    and g: "\<forall>n\<in>set ns. good_name n \<and> lookup (disk (w\<lparr>disk := fs1\<rparr>)) (os_path_join src n) \<noteq> None"
    by auto
  from organize_loop_run [OF lp [unfolded st] d g] ent obtain ms where
    "entries = map record_of ms" "run (dir_bound out) fs1 ms (disk w2)"
    "\<forall>m\<in>set ms. move_ok src out (set ns) m" "\<forall>m\<in>set ms. placed (disk w2) m"
    "\<forall>m\<in>set ms. sourced fs1 m"
    by auto
  moreover have "lookup fs1 src = Some Dir"
    using l by (auto simp: os_listdir_def split: option.splits node.splits)
  ultimately show ?thesis
    using ad d g fin
    by (intro exI [of _ fs1] exI [of _ ns] exI [of _ ms] exI [of _ "disk w2"]) auto
qed

lemma move_ok_facts:
  assumes "move_ok src out names (ts, p, d, c)"
  shows "p \<noteq> []" "d \<noteq> []" "length (os_path_dirname p) \<le> length (pre src)"
    "length (pre src) < length p" "d \<noteq> os_path_join out LOG_FILENAME"
    "\<exists>n\<in>names. p = os_path_join src n"
proof -
  from assms obtain n cand where f0: "n \<in> names" "good_name n" "good_name cand"
    "p = os_path_join src n" "d = os_path_join (os_path_join out (category_of n)) cand"
    by (auto simp: move_ok_def)
  define cat where "cat = category_of n"
  have f: "n \<in> names" "cat \<in> set categories" "good_name n"
    "relative cand" "p = os_path_join src n" "d = os_path_join (os_path_join out cat) cand"
    using f0 category_of_in [of n] good_name_relative [of cand] by (simp_all add: cat_def)
  show "p \<noteq> []" using f(3,5) join_nonempty [of n src] by (simp add: good_name_def)
  have "os_path_join out cat \<noteq> []" using category_shape(1) [OF f(2)] by (rule join_nonempty)
  then show "d \<noteq> []" using f(6) by (simp add: join_nonempty_left)
  show "length (os_path_dirname p) \<le> length (pre src)" using f(3,5) by (simp add: dirname_join_length)
  show "length (pre src) < length p" using f(3,5) by (simp add: join_longer)
  show "d \<noteq> os_path_join out LOG_FILENAME" using f(2,4,6) by (simp add: dest_not_log)
  show "\<exists>n\<in>names. p = os_path_join src n" using f(1,5) by blast
qed

section \<open>The loop of undo on a run\<close>

lemma record_src_record [simp]: "record_src (move_record ts p d) = p"
  by (simp add: record_src_def move_record_def dict_get_def)

lemma undo_entry_record:
  assumes "p \<noteq> []" and "d \<noteq> []"
  shows "undo_entry (U, f) (move_record ts p d) =
     (if os_path_exists (disk U) d then
        (case ensure_dir (disk U) (os_path_dirname p) of
           Inl e \<Rightarrow> Inl e
         | Inr fs1 \<Rightarrow>
             (case shutil_move fs1 d p of
                Inr fs2 \<Rightarrow> Inr (print (U\<lparr>disk := fs2\<rparr>) (''Restored: '' @ d @ '' -> '' @ p), f)
              | Inl e \<Rightarrow>
                  Inr (print (U\<lparr>disk := fs1\<rparr>)
                         (''Failed to restore '' @ d @ '' -> '' @ p @ '': '' @ error_text e),
                       f @ [move_record ts p d])))
      else Inr (print U (''Skipped (missing destination): '' @ d), f))"
  unfolding move_record_def using assms by (simp add: undo_entry_def dict_get_def)

lemma undo_entry_failed_grows:
  assumes "undo_entry (U, f) e = Inr (U', f')"
  shows "length f \<le> length f'"
proof (cases e)
  case (JObj kvs)
  show ?thesis
  proof (cases "\<not> truthy (dict_get kvs ''dest'') \<or> \<not> truthy (dict_get kvs ''src'')")
    case True
    with assms JObj show ?thesis by (auto simp: undo_entry_def Let_def)
  next
    case False
    with assms JObj show ?thesis
      by (cases "dict_get kvs ''dest''"; cases "dict_get kvs ''src''")
         (auto simp: undo_entry_def Let_def split: if_splits sum.splits)
  qed
qed (use assms in \<open>auto simp: undo_entry_def\<close>)

lemma undo_loop_failed_grows:
  "undo_loop (U, f) es = Inr (U', f') \<Longrightarrow> length f \<le> length f'"
proof (induction es arbitrary: U f)
  case Nil
  then show ?case by simp
next
  case (Cons e es)
  from Cons.prems obtain U1 f1 where s: "undo_entry (U, f) e = Inr (U1, f1)"
    and r: "undo_loop (U1, f1) es = Inr (U', f')"
    by (auto split: sum.splits)
  from undo_entry_failed_grows [OF s] Cons.IH [OF r] show ?case by simp
qed

lemma undo_loop_append:
  "undo_loop st (xs @ ys) =
     (case undo_loop st xs of Inl e \<Rightarrow> Inl e | Inr st' \<Rightarrow> undo_loop st' ys)"
  by (induction xs arbitrary: st) (auto split: sum.splits)

lemma undo_run:
  assumes "run N fs ms T"
    and "\<forall>m\<in>set ms. undo_ok X L lp m"
    and "\<forall>x\<in>X. lookup T x = None \<and> L < length x"
    and "\<forall>x. x \<noteq> lp \<longrightarrow> files_of (disk U) x = files_of T x"
    and "\<forall>x\<in>X. lookup (disk U) x = None"
    and "lookup (disk U) lp = Some (File lc)"
    and "undo_loop (U, []) (rev (map record_of ms)) = Inr (U', [])"
  shows "(\<forall>x. x \<noteq> lp \<longrightarrow> files_of (disk U') x = files_of fs x)
       \<and> (\<forall>x\<in>X. lookup fs x = None \<longrightarrow> lookup (disk U') x = None)
       \<and> lookup (disk U') lp = Some (File lc)
       \<and> (\<forall>x. lookup (disk U) x = Some Dir \<longrightarrow> lookup (disk U') x = Some Dir)"
  using assms(1,2,7)
proof (induction ms arbitrary: fs U')
  case Nil
  then have "U' = U" "adds_dirs N fs T" by auto
  then show ?case using assms(4,5,6) adds_dirs_files [of N fs T] by auto
next
  case (Cons m ms)
  obtain ts p d c where m: "m = (ts, p, d, c)" by (cases m) auto
  from Cons.prems(1) m obtain fs1 fs2 where s: "adds_dirs N fs fs1" "lookup fs1 p = Some (File c)"
    "lookup fs1 d = None" "lookup fs2 = (lookup fs1)(p := None, d \<mapsto> File c)" "run N fs2 ms T"
    by auto
  from Cons.prems(2) m have ok: "p \<in> X" "p \<noteq> []" "d \<noteq> []" "length (os_path_dirname p) \<le> L"
    "p \<noteq> lp" "d \<noteq> lp"
    by (auto simp: undo_ok_def)
  have pd: "p \<noteq> d" using s(2,3) by auto
  have rm: "record_of m = move_record ts p d" using m by (simp add: record_of_def)
  from Cons.prems(3) have
    "undo_loop (U, []) (rev (map record_of ms) @ [move_record ts p d]) = Inr (U', [])"
    by (simp add: rm)
  then obtain U1 f1 where
    u1: "undo_loop (U, []) (rev (map record_of ms)) = Inr (U1, f1)" and
    u2: "undo_entry (U1, f1) (move_record ts p d) = Inr (U', [])"
    by (auto simp: undo_loop_append split: sum.splits)
  have "f1 = []" using undo_entry_failed_grows [OF u2] by simp
  with u1 u2 have u1': "undo_loop (U, []) (rev (map record_of ms)) = Inr (U1, [])"
    and u2': "undo_entry (U1, []) (move_record ts p d) = Inr (U', [])" by auto
  have okms: "\<forall>m\<in>set ms. undo_ok X L lp m" using Cons.prems(2) by auto
  from Cons.IH [OF s(5) okms u1'] have
    ih1: "\<forall>x. x \<noteq> lp \<longrightarrow> files_of (disk U1) x = files_of fs2 x" and
    ih2: "\<forall>x\<in>X. lookup fs2 x = None \<longrightarrow> lookup (disk U1) x = None" and
    ih3: "lookup (disk U1) lp = Some (File lc)" and
    ih4: "\<forall>x. lookup (disk U) x = Some Dir \<longrightarrow> lookup (disk U1) x = Some Dir"
    by auto
  have "files_of (disk U1) d = Some c" using ih1 ok(6) s(4) by (simp add: files_of_def)
  then have d1: "lookup (disk U1) d = Some (File c)"
    by (auto simp: files_of_def split: option.splits node.splits)
  then have ex: "os_path_exists (disk U1) d" by (simp add: os_path_exists_def)
  from u2' ex obtain fs3 where e3: "ensure_dir (disk U1) (os_path_dirname p) = Inr fs3"
    by (auto simp: undo_entry_record [OF ok(2,3)] split: sum.splits)
  with u2' ex obtain fs4 where m4: "shutil_move fs3 d p = Inr fs4" and U': "disk U' = fs4"
    by (auto simp: undo_entry_record [OF ok(2,3)] split: sum.splits)
  have ad: "adds_dirs (length (os_path_dirname p)) (disk U1) fs3"
    using e3 by (simp add: ensure_dir_def makedirs_adds)
  have d3: "lookup fs3 d = Some (File c)" using ad d1 by (rule adds_dirs_present)
  have "lookup fs2 p = None" using s(4) pd by simp
  then have "lookup (disk U1) p = None" using ih2 ok(1) by simp
  moreover have "length (os_path_dirname p) < length p" using ok(1,4) assms(3) by auto
  ultimately have p3: "lookup fs3 p = None" using ad by (auto dest: adds_dirs_absent)
  from shutil_move_file [OF d3 p3 m4] have l4: "lookup fs4 = (lookup fs3)(d := None, p \<mapsto> File c)" .
  have f1: "files_of fs = files_of fs1" using adds_dirs_files [OF s(1)] by simp
  have f3: "files_of fs3 = files_of (disk U1)" using adds_dirs_files [OF ad] by simp
  have g1: "\<forall>x. x \<noteq> lp \<longrightarrow> files_of fs4 x = files_of fs x"
  proof (intro allI impI)
    fix x assume x: "x \<noteq> lp"
    show "files_of fs4 x = files_of fs x"
    proof (cases "x = p \<or> x = d")
      case True
      then show ?thesis using l4 pd s(2,3) f1 by (auto simp: files_of_def)
    next
      case False
      then have "files_of fs4 x = files_of fs3 x" using l4 by (simp add: files_of_def)
      also have "\<dots> = files_of fs2 x" using f3 ih1 x by simp
      also have "\<dots> = files_of fs1 x" using False s(4) by (simp add: files_of_def)
      finally show ?thesis using f1 by simp
    qed
  qed
  have g2: "\<forall>x\<in>X. lookup fs x = None \<longrightarrow> lookup fs4 x = None"
  proof (intro ballI impI)
    fix x assume x: "x \<in> X" "lookup fs x = None"
    have xp: "x \<noteq> p" using x(2) s(1,2) by (auto dest: adds_dirs_back)
    show "lookup fs4 x = None"
    proof (cases "x = d")
      case True
      then show ?thesis using l4 pd by simp
    next
      case False
      have "lookup fs1 x \<noteq> Some Dir"
      proof
        assume "lookup fs1 x = Some Dir"
        then have "lookup fs2 x = Some Dir" using s(4) xp False by simp
        then have "lookup T x = Some Dir" using run_dir_persist [OF s(5)] by simp
        with assms(3) x(1) show False by simp
      qed
      moreover have "lookup fs1 x = lookup fs x \<or> lookup fs1 x = Some Dir"
        using s(1) unfolding adds_dirs_def by metis
      ultimately have "lookup fs1 x = None" using x(2) by simp
      then have "lookup fs2 x = None" using s(4) False by simp
      then have "lookup (disk U1) x = None" using ih2 x(1) by simp
      moreover have "length (os_path_dirname p) < length x" using ok(4) assms(3) x(1) by auto
      ultimately have "lookup fs3 x = None" using ad by (auto dest: adds_dirs_absent)
      then show ?thesis using l4 xp False by simp
    qed
  qed
  have g3: "lookup fs4 lp = Some (File lc)"
    using l4 ok(5,6) adds_dirs_present [OF ad ih3] by simp
  have g4: "\<forall>x. lookup (disk U) x = Some Dir \<longrightarrow> lookup fs4 x = Some Dir"
  proof (intro allI impI)
    fix x assume "lookup (disk U) x = Some Dir"
    then have "lookup (disk U1) x = Some Dir" using ih4 by simp
    then have "lookup fs3 x = Some Dir" by (rule adds_dirs_present [OF ad])
    then show "lookup fs4 x = Some Dir" using l4 d3 p3 by auto
  qed
  from g1 g2 g3 g4 U' show ?case by simp
qed

lemma undo_run_succeeds:
  assumes "run N fs ms T"
    and "\<forall>m\<in>set ms. undo_ok X L lp m"
    and "\<forall>x\<in>X. lookup T x = None \<and> L < length x"
    and "\<forall>x. x \<noteq> lp \<longrightarrow> files_of (disk U) x = files_of T x"
    and "\<forall>x\<in>X. lookup (disk U) x = None"
    and "lookup (disk U) lp = Some (File lc)"
    and "\<forall>m\<in>set ms. os_path_dirname (fst (snd m)) = D"
    and "lookup (disk U) D = Some Dir"
    and "fst (makedirs_parts D) = [] \<or> lookup (disk U) (fst (makedirs_parts D)) = Some Dir"
  shows "\<exists>U'. undo_loop (U, []) (rev (map record_of ms)) = Inr (U', [])"
  using assms(1,2,7)
proof (induction ms arbitrary: fs)
  case Nil
  then show ?case by simp
next
  case (Cons m ms)
  obtain ts p d c where m: "m = (ts, p, d, c)" by (cases m) auto
  from Cons.prems(1) m obtain fs1 fs2 where s: "adds_dirs N fs fs1" "lookup fs1 p = Some (File c)"
    "lookup fs1 d = None" "lookup fs2 = (lookup fs1)(p := None, d \<mapsto> File c)" "run N fs2 ms T"
    by auto
  from Cons.prems(2) m have ok: "p \<in> X" "p \<noteq> []" "d \<noteq> []" "d \<noteq> lp"
    by (auto simp: undo_ok_def)
  have dp: "os_path_dirname p = D" using Cons.prems(3) m by simp
  have pd: "p \<noteq> d" using s(2,3) by auto
  have okms: "\<forall>m\<in>set ms. undo_ok X L lp m" using Cons.prems(2) by auto
  have dms: "\<forall>m\<in>set ms. os_path_dirname (fst (snd m)) = D" using Cons.prems(3) by auto
  from Cons.IH [OF s(5) okms dms] obtain U1 where
    u1: "undo_loop (U, []) (rev (map record_of ms)) = Inr (U1, [])" by blast
  from undo_run [OF s(5) okms assms(3,4,5,6) u1] have
    ih1: "\<forall>x. x \<noteq> lp \<longrightarrow> files_of (disk U1) x = files_of fs2 x" and
    ih2: "\<forall>x\<in>X. lookup fs2 x = None \<longrightarrow> lookup (disk U1) x = None" and
    ih4: "\<forall>x. lookup (disk U) x = Some Dir \<longrightarrow> lookup (disk U1) x = Some Dir"
    by auto
  have "files_of (disk U1) d = Some c" using ih1 ok(4) s(4) by (simp add: files_of_def)
  then have d1: "lookup (disk U1) d = Some (File c)"
    by (auto simp: files_of_def split: option.splits node.splits)
  then have ex: "os_path_exists (disk U1) d" by (simp add: os_path_exists_def)
  have "lookup fs2 p = None" using s(4) pd by simp
  then have p1: "lookup (disk U1) p = None" using ih2 ok(1) by simp
  have D1: "os_path_isdir (disk U1) D" using ih4 assms(8) by (simp add: os_path_isdir_def)
  have "fst (makedirs_parts D) = [] \<or> os_path_exists (disk U1) (fst (makedirs_parts D))"
    using ih4 assms(9) by (auto simp: os_path_exists_def)
  with D1 have e3: "ensure_dir (disk U1) (os_path_dirname p) = Inr (disk U1)"
    by (simp add: ensure_dir_def dp makedirs_existing)
  from shutil_move_file_ok [OF d1 p1 ok(2)] D1 dp obtain fs4 where
    m4: "shutil_move (disk U1) d p = Inr fs4" by auto
  have "undo_entry (U1, []) (move_record ts p d)
      = Inr (print (U1\<lparr>disk := fs4\<rparr>) (''Restored: '' @ d @ '' -> '' @ p), [])"
    using ex e3 m4 by (simp add: undo_entry_record [OF ok(2,3)])
  moreover have "record_of m = move_record ts p d" using m by (simp add: record_of_def)
  ultimately show ?case using u1 by (simp add: undo_loop_append)
qed

section \<open>Organize, then undo\<close>




lemma organize_undo_setup:
  assumes org: "organize w src out False = Inr (w1, entries)"
    and ex: "os_path_exists (disk w) src"
    and nolog: "\<not> os_path_exists (disk w) (os_path_join out LOG_FILENAME)"
    and vacant: "list_all (\<lambda>e. \<not> os_path_exists (disk w1) (record_src e)) entries"
    and ne: "entries \<noteq> []"
  shows "\<exists>fs1 ns ms T X.
      files_of fs1 = files_of (disk w)
    \<and> lookup fs1 (os_path_join out LOG_FILENAME) = None
    \<and> lookup fs1 src = Some Dir
    \<and> entries = map record_of ms
    \<and> run (dir_bound out) fs1 ms T
    \<and> (\<forall>m\<in>set ms. move_ok src out (set ns) m)
    \<and> (\<forall>m\<in>set ms. undo_ok X (length (pre src)) (os_path_join out LOG_FILENAME) m)
    \<and> (\<forall>x\<in>X. lookup T x = None \<and> length (pre src) < length x)
    \<and> (\<forall>x. x \<noteq> os_path_join out LOG_FILENAME \<longrightarrow> files_of (disk w1) x = files_of T x)
    \<and> (\<forall>x\<in>X. lookup (disk w1) x = None)
    \<and> lookup (disk w1) (os_path_join out LOG_FILENAME) = Some (File (Json (JList entries)))
    \<and> (\<forall>x. lookup (disk w) x = Some Dir \<longrightarrow> lookup (disk w1) x = Some Dir)
    \<and> (\<forall>x. lookup fs1 x = Some Dir \<longrightarrow> lookup (disk w1) x = Some Dir)"
proof -
  let ?lp = "os_path_join out LOG_FILENAME"
  from organize_run [OF org ex] obtain fs1 ns ms T where
    ad: "adds_dirs (length out) (disk w) fs1" and
    ent: "entries = map record_of ms" and
    run: "run (dir_bound out) fs1 ms T" and
    ok: "\<forall>m\<in>set ms. move_ok src out (set ns) m" and
    fin: "if entries = [] then disk w1 = T else write_log T out entries = Inr (disk w1)" and
    sd: "lookup fs1 src = Some Dir"
    by blast
  have lp1: "lookup fs1 ?lp = None" using ad nolog by (rule log_absent_after_ensure)
  have nd: "?lp \<notin> (\<lambda>m. fst (snd (snd m))) ` set ms"
  proof
    assume "?lp \<in> (\<lambda>m. fst (snd (snd m))) ` set ms"
    then obtain m where m: "m \<in> set ms" "fst (snd (snd m)) = ?lp" by auto
    obtain ts p d c where "m = (ts, p, d, c)" by (cases m) auto
    with m ok move_ok_facts(5) [of src out "set ns" ts p d c] show False by auto
  qed
  have lpT: "lookup T ?lp = None" using run lp1 log_bound nd by (rule run_absent_long)
  have f1: "files_of fs1 = files_of (disk w)" using ad by (rule adds_dirs_files)
  have wl: "write_log T out entries = Inr (disk w1)" using fin ne by simp
  have st: "stored_entries T out = []" using lpT by (simp add: stored_entries_def)
  from write_log_result [OF wl] obtain fs5 where
    e5: "ensure_dir T out = Inr fs5" and
    w1: "disk w1 = AList.update ?lp (File (Json (JList entries))) fs5"
    by (auto simp: st)
  have ad5: "adds_dirs (length out) T fs5" using e5 by (simp add: ensure_dir_def makedirs_adds)
  have l1: "lookup (disk w1) = (lookup fs5)(?lp \<mapsto> File (Json (JList entries)))"
    using w1 by (simp add: lookup_update)
  define X where "X = (\<lambda>m. fst (snd m)) ` set ms"
  have Xv: "\<forall>x\<in>X. lookup (disk w1) x = None"
  proof
    fix x assume "x \<in> X"
    then obtain m where m: "m \<in> set ms" "x = fst (snd m)" by (auto simp: X_def)
    obtain ts p d c where mm: "m = (ts, p, d, c)" by (cases m) auto
    have "record_of m \<in> set entries" using m(1) ent by simp
    moreover have "record_src (record_of m) = x" using m(2) mm by (simp add: record_of_def)
    ultimately show "lookup (disk w1) x = None"
      using vacant by (auto simp: list_all_iff os_path_exists_def)
  qed
  have Xlp: "\<forall>x\<in>X. x \<noteq> ?lp" using Xv l1 by auto
  have XT: "\<forall>x\<in>X. lookup T x = None \<and> length (pre src) < length x"
  proof
    fix x assume x: "x \<in> X"
    then have "lookup fs5 x = None" using Xv Xlp l1 by (metis fun_upd_apply)
    then have "lookup T x = None" using ad5 by (auto dest: adds_dirs_back_none)
    moreover from x obtain m where m: "m \<in> set ms" "x = fst (snd m)" by (auto simp: X_def)
    obtain ts p d c where mm: "m = (ts, p, d, c)" by (cases m) auto
    with m ok have "move_ok src out (set ns) (ts, p, d, c)" by auto
    from move_ok_facts(4) [OF this] have "length (pre src) < length x" using m(2) mm by simp
    ultimately show "lookup T x = None \<and> length (pre src) < length x" by simp
  qed
  have uok: "\<forall>m\<in>set ms. undo_ok X (length (pre src)) ?lp m"
  proof
    fix m assume m: "m \<in> set ms"
    obtain ts p d c where mm: "m = (ts, p, d, c)" by (cases m) auto
    with m ok have mo: "move_ok src out (set ns) (ts, p, d, c)" by auto
    have "p \<in> X" using m mm by (force simp: X_def)
    then show "undo_ok X (length (pre src)) ?lp m"
      using mm move_ok_facts(1,2,3,5) [OF mo] Xlp by (auto simp: undo_ok_def)
  qed
  have cf: "\<forall>x. x \<noteq> ?lp \<longrightarrow> files_of (disk w1) x = files_of T x"
    using l1 adds_dirs_files [OF ad5] by (auto simp: files_of_def fun_eq_iff)
  have llp: "lookup (disk w1) ?lp = Some (File (Json (JList entries)))" using l1 by simp
  have dirs1: "\<forall>x. lookup fs1 x = Some Dir \<longrightarrow> lookup (disk w1) x = Some Dir"
  proof (intro allI impI)
    fix x assume "lookup fs1 x = Some Dir"
    then have t: "lookup T x = Some Dir" by (rule run_dir_persist [OF run])
    then have "lookup fs5 x = Some Dir" by (rule adds_dirs_present [OF ad5])
    moreover have "x \<noteq> ?lp" using t lpT by auto
    ultimately show "lookup (disk w1) x = Some Dir" using l1 by simp
  qed
  have dirs: "\<forall>x. lookup (disk w) x = Some Dir \<longrightarrow> lookup (disk w1) x = Some Dir"
    using dirs1 adds_dirs_present [OF ad] by blast
  from f1 lp1 sd ent run ok uok XT cf Xv llp dirs dirs1 show ?thesis by blast
qed




text \<open>
  The last hypothesis of the round trip holds by itself when the source folder is given
  without a separator at its end and the directory it lies in exists: then no restore
  fails and \<open>ensure_dir\<close> raises nothing.
\<close>

lemma undo_after_organize_succeeds:
  assumes org: "organize w src out False = Inr (w1, entries)"
    and nolog: "\<not> os_path_exists (disk w) (os_path_join out LOG_FILENAME)"
    and vacant: "list_all (\<lambda>e. \<not> os_path_exists (disk w1) (record_src e)) entries"
    and norm: "src \<noteq> []" "last src \<noteq> CHR ''/''"
    and parent: "os_path_dirname src = [] \<or> os_path_isdir (disk w) (os_path_dirname src)"
  shows "\<exists>wu. undo_loop (w1, []) (rev entries) = Inr (wu, [])"
proof (cases "entries = []")
  case True
  then show ?thesis by simp
next
  case False
  have ex: "os_path_exists (disk w) src"
    using org False by (auto simp: organize_def split: if_splits)
  let ?lp = "os_path_join out LOG_FILENAME"
  from organize_undo_setup [OF org ex nolog vacant False]
  obtain fs1 ns ms T X where
    sd: "lookup fs1 src = Some Dir" and
    ent: "entries = map record_of ms" and
    run: "run (dir_bound out) fs1 ms T" and
    ok: "\<forall>m\<in>set ms. move_ok src out (set ns) m" and
    uok: "\<forall>m\<in>set ms. undo_ok X (length (pre src)) ?lp m" and
    XT: "\<forall>x\<in>X. lookup T x = None \<and> length (pre src) < length x" and
    cf: "\<forall>x. x \<noteq> ?lp \<longrightarrow> files_of (disk w1) x = files_of T x" and
    Xv: "\<forall>x\<in>X. lookup (disk w1) x = None" and
    llp: "lookup (disk w1) ?lp = Some (File (Json (JList entries)))" and
    dirs: "\<forall>x. lookup (disk w) x = Some Dir \<longrightarrow> lookup (disk w1) x = Some Dir" and
    dirs1: "\<forall>x. lookup fs1 x = Some Dir \<longrightarrow> lookup (disk w1) x = Some Dir"
    by blast
  have dn: "\<forall>m\<in>set ms. os_path_dirname (fst (snd m)) = src"
  proof
    fix m assume m: "m \<in> set ms"
    obtain ts p d c where mm: "m = (ts, p, d, c)" by (cases m) auto
    with m ok obtain n where "good_name n" "p = os_path_join src n"
      by (auto simp: move_ok_def)
    then show "os_path_dirname (fst (snd m)) = src"
      using mm dirname_join_normal [OF norm] by simp
  qed
  have s1: "lookup (disk w1) src = Some Dir" using sd dirs1 by simp
  have hd: "fst (makedirs_parts src) = []
      \<or> lookup (disk w1) (fst (makedirs_parts src)) = Some Dir"
    using parent dirs makedirs_parts_normal [OF norm] by (auto simp: os_path_isdir_def)
  from undo_run_succeeds [OF run uok XT cf Xv llp dn s1 hd] show ?thesis
    by (simp add: ent)
qed


section \<open>Dry runs and undo, in general\<close>

text \<open>
  The evaluations of the dry run and of the two undo runs above are instances of what the code
  does on every input.  A dry run goes through \<open>ensure_dir\<close> for the output folder and
  for the category folder of every file before it looks at the flag, so on the disk it can add
  directories, and that is all it does: no record is produced, no file appears, disappears or
  changes, the log file is not touched and the clock is not read.
\<close>

lemma organize_file_dry_run:
  assumes "organize_file src out True (w, acc, cnt, sk, tot) n = Inr (w', acc', cnt', sk', tot')"
  shows "adds_dirs (dir_bound out) (disk w) (disk w') \<and> acc' = acc \<and> clock w' = clock w"
proof (cases "os_path_isdir (disk w) (os_path_join src n)")
  case True
  with assms show ?thesis by (auto simp: organize_file_def adds_dirs_refl)
next
  case False
  let ?dd = "os_path_join out (category_of n)"
  from assms False obtain fs1 where e: "ensure_dir (disk w) ?dd = Inr fs1"
    by (auto simp: organize_file_def Let_def split: sum.splits)
  have "adds_dirs (length ?dd) (disk w) fs1" using e by (simp add: ensure_dir_def makedirs_adds)
  then have "adds_dirs (dir_bound out) (disk w) fs1"
    using dest_dir_shape(3) [OF category_of_in, of out n]
    by (auto intro: adds_dirs_mono simp: dir_bound_def)
  moreover from assms False e have "disk w' = fs1" "acc' = acc" "clock w' = clock w"
    by (auto simp: organize_file_def Let_def print_def)
  ultimately show ?thesis by simp
qed

lemma organize_loop_dry_run:
  assumes "organize_loop src out True (w, acc, cnt, sk, tot) ns = Inr (w', acc', cnt', sk', tot')"
  shows "adds_dirs (dir_bound out) (disk w) (disk w') \<and> acc' = acc \<and> clock w' = clock w"
  using assms
proof (induction ns arbitrary: w acc cnt sk tot)
  case Nil
  then show ?case by (simp add: adds_dirs_refl)
next
  case (Cons n ns)
  from Cons.prems obtain st where step: "organize_file src out True (w, acc, cnt, sk, tot) n = Inr st"
    and rest: "organize_loop src out True st ns = Inr (w', acc', cnt', sk', tot')"
    by (auto split: sum.splits)
  obtain w2 acc2 cnt2 sk2 tot2 where st: "st = (w2, acc2, cnt2, sk2, tot2)" by (cases st) auto
  from organize_file_dry_run [OF step [unfolded st]] Cons.IH [OF rest [unfolded st]]
  show ?case by (auto intro: adds_dirs_trans)
qed

lemma clock_print [simp]: "clock (print w s) = clock w"
  by (simp add: print_def)

lemma clock_print_summary [simp]: "clock (print_summary w counts t s) = clock w"
proof -
  have "\<And>v. clock (foldl (\<lambda>v (cat, cnt). print v (cat @ '': '' @ str_nat cnt)) v counts) = clock v"
    by (induction counts) (auto simp: case_prod_beta)
  then show ?thesis by (simp add: print_summary_def Let_def)
qed

lemma dry_run_only_adds_directories:
  assumes "organize w src out True = Inr (w', entries)"
  shows "entries = []
       \<and> adds_dirs (dir_bound out) (disk w) (disk w')
       \<and> files_of (disk w') = files_of (disk w)
       \<and> lookup (disk w') (os_path_join out LOG_FILENAME)
           = lookup (disk w) (os_path_join out LOG_FILENAME)
       \<and> clock w' = clock w"
proof -
  have main: "entries = [] \<and> adds_dirs (dir_bound out) (disk w) (disk w') \<and> clock w' = clock w"
  proof (cases "os_path_exists (disk w) src")
    case False
    with assms show ?thesis by (auto simp: organize_def adds_dirs_refl)
  next
    case True
    with assms obtain fs1 where e: "ensure_dir (disk w) out = Inr fs1"
      by (auto simp: organize_def split: sum.splits)
    with assms True obtain ns where l: "os_listdir fs1 src = Inr ns"
      by (auto simp: organize_def split: sum.splits)
    with assms True e obtain st where
      lp: "organize_loop src out True (w\<lparr>disk := fs1\<rparr>, [], [], 0, 0) ns = Inr st"
      by (auto simp: organize_def split: sum.splits)
    obtain w2 acc cnt sk tot where st: "st = (w2, acc, cnt, sk, tot)" by (cases st) auto
    from organize_loop_dry_run [OF lp [unfolded st]] have
      a: "adds_dirs (dir_bound out) fs1 (disk w2)" and acc: "acc = []" and c: "clock w2 = clock w"
      by auto
    have "adds_dirs (length out) (disk w) fs1" using e by (simp add: ensure_dir_def makedirs_adds)
    moreover have "length out \<le> dir_bound out" by (simp add: dir_bound_def pre_def)
    ultimately have "adds_dirs (dir_bound out) (disk w) fs1" by (rule adds_dirs_mono)
    then have "adds_dirs (dir_bound out) (disk w) (disk w2)" using a by (rule adds_dirs_trans)
    moreover from assms True e l lp st acc have "entries = []" "disk w' = disk w2" "clock w' = clock w2"
      by (auto simp: organize_def Let_def)
    ultimately show ?thesis using c by simp
  qed
  then have "files_of (disk w') = files_of (disk w)" by (auto dest: adds_dirs_files)
  moreover have "lookup (disk w') (os_path_join out LOG_FILENAME)
           = lookup (disk w) (os_path_join out LOG_FILENAME)"
    using main log_bound [of out] unfolding adds_dirs_def by (metis not_le)
  ultimately show ?thesis using main by simp
qed

text \<open>
  A record whose \<open>src\<close> or \<open>dest\<close> is missing or falsy is passed over by
  \<open>undo_entry\<close>: neither the disk nor the list of failed records changes.  It is
  therefore not among the records that \<open>undo_moves\<close> writes back.
\<close>

lemma undo_entry_skips:
  assumes "\<not> truthy (dict_get kvs ''dest'') \<or> \<not> truthy (dict_get kvs ''src'')"
  shows "undo_entry (w, failed) (JObj kvs) = Inr (w, failed)"
  using assms by (auto simp: undo_entry_def Let_def)

text \<open>
  When some record fails, \<open>undo_moves\<close> hands the failed records to
  \<open>write_log\<close>, which reads the log file again and puts them behind what is stored
  there.  The log file after the call therefore holds the stored entries of the disk as the
  loop left it, followed by the failed records in their original order.
\<close>

lemma undo_rewrites_by_appending:
  assumes "load_log (disk w) out = Inr log" and "log \<noteq> []"
    and "undo_loop (w, []) (rev log) = Inr (w1, failed)" and "failed \<noteq> []"
    and "undo_moves w out = Inr w2"
  shows "lookup (disk w2) (os_path_join out LOG_FILENAME)
           = Some (File (Json (JList (stored_entries (disk w1) out @ rev failed))))"
proof -
  from assms obtain fs2 where w: "write_log (disk w1) out (rev failed) = Inr fs2"
    and d: "disk w2 = fs2"
    by (auto simp: undo_moves_def split: sum.splits)
  from write_log_result [OF w] d show ?thesis by (auto simp: lookup_update)
qed

end
